theory Spec2Isabelle
  imports Main
begin

section \<open>Python values the program relies on\<close>

text \<open>
  The program is \<^verbatim>\<open>api_discovery.py\<close>: a scanner for JAX-RS annotations in Java sources.
  A Python \<^verbatim>\<open>str\<close> is modelled as a \<^typ>\<open>string\<close>; a \<^typ>\<open>char\<close> stands for the code
  point of the same number, so the model covers texts whose code points are below 256.
  The leading underscore of the Python method names is dropped
  (\<^verbatim>\<open>_combine_paths\<close> is \<open>combine_paths\<close>), and the fields of the three dataclasses carry
  a prefix (\<open>param_\<close>, \<open>ep_\<close>, \<open>res_\<close>).
\<close>

subsection \<open>Strings\<close>

text \<open>\<^verbatim>\<open>sub in s\<close> on strings.\<close>

primrec str_contains :: "string \<Rightarrow> string \<Rightarrow> bool" where
  "str_contains [] sub = (sub = [])"
| "str_contains (c # cs) sub = (take (length sub) (c # cs) = sub \<or> str_contains cs sub)"

text \<open>\<^verbatim>\<open>s.rstrip('/')\<close> and \<^verbatim>\<open>s.lstrip('/')\<close>, for any character.\<close>

definition lstrip :: "char \<Rightarrow> string \<Rightarrow> string" where
  "lstrip c s = dropWhile (\<lambda>x. x = c) s"

definition rstrip :: "char \<Rightarrow> string \<Rightarrow> string" where
  "rstrip c s = rev (dropWhile (\<lambda>x. x = c) (rev s))"

text \<open>\<^verbatim>\<open>s.endswith(suf)\<close>.\<close>

definition endswith :: "string \<Rightarrow> string \<Rightarrow> bool" where
  "endswith s suf = (length suf \<le> length s \<and> drop (length s - length suf) s = suf)"

text \<open>\<^verbatim>\<open>str.lower\<close> and \<^verbatim>\<open>str.replace\<close> of one character, on ASCII text.\<close>

definition lower_char :: "char \<Rightarrow> char" where
  "lower_char c =
     (let n = (of_char c :: nat) in if 65 \<le> n \<and> n \<le> 90 then char_of (n + 32) else c)"

definition str_lower :: "string \<Rightarrow> string" where
  "str_lower s = map lower_char s"

definition replace_char :: "char \<Rightarrow> char \<Rightarrow> string \<Rightarrow> string" where
  "replace_char a b s = map (\<lambda>c. if c = a then b else c) s"

text \<open>\<^verbatim>\<open>str(n)\<close> for a length.\<close>

fun str_nat :: "nat \<Rightarrow> string" where
  "str_nat n =
     (if n < 10 then [char_of (48 + n)]
      else str_nat (n div 10) @ [char_of (48 + n mod 10)])"

declare str_nat.simps [simp del]

text \<open>\<^verbatim>\<open>os.path.join(a, b)\<close> on POSIX paths.\<close>

definition os_path_join :: "string \<Rightarrow> string \<Rightarrow> string" where
  "os_path_join a b =
     (if b \<noteq> [] \<and> hd b = CHR ''/'' then b
      else if a = [] \<or> last a = CHR ''/'' then a @ b
      else a @ ''/'' @ b)"

subsection \<open>Dictionaries\<close>

text \<open>
  A Python dict keeps insertion order: an association list with distinct keys.
  \<open>dict_set\<close> is \<^verbatim>\<open>d[k] = v\<close>: an existing key keeps its place, a new key goes last.
\<close>

primrec dict_set :: "'k \<Rightarrow> 'v \<Rightarrow> ('k \<times> 'v) list \<Rightarrow> ('k \<times> 'v) list" where
  "dict_set k v [] = [(k, v)]"
| "dict_set k v (p # ps) = (if fst p = k then (k, v) # ps else p # dict_set k v ps)"

text \<open>The data a YAML document holds: what \<^verbatim>\<open>yaml.dump\<close> is given.\<close>

datatype yaml =
    YStr string
  | YBool bool
  | YList "yaml list"
  | YDict "(string \<times> yaml) list"

section \<open>The fragment of Python's \<^verbatim>\<open>re\<close> the analyzer uses\<close>

text \<open>
  Regular expressions are matched as \<^verbatim>\<open>re\<close> matches them: by backtracking, the
  alternatives tried in priority order (a greedy repetition tries one more round before
  it tries to go on; an optional part is tried before it is left out), and the first
  complete match wins. A capture group inside a repetition keeps the text of its last
  round.

  The matcher is written with a continuation: \<open>rmatch r k (s, g)\<close> matches \<open>r\<close> at the
  start of \<open>s\<close> with the groups \<open>g\<close> captured so far and hands the rest of the text and the
  new groups to \<open>k\<close>; \<open>None\<close> is a failed attempt, after which the caller tries its next
  alternative. A round of a repetition must consume a character; the bodies of all
  repetitions in the patterns below do. The fuel of \<open>rep\<close> is the length of the text, so
  it never runs out.
\<close>

datatype regex =
    Epsilon
  | Sym "char \<Rightarrow> bool"
  | Cat regex regex
  | Alt regex regex
  | Rep regex
  | Cap nat regex

type_synonym groups = "string option list"
type_synonym mstate = "string \<times> groups"
type_synonym cont = "mstate \<Rightarrow> mstate option"

primrec rep :: "(cont \<Rightarrow> mstate \<Rightarrow> mstate option) \<Rightarrow> nat \<Rightarrow> cont \<Rightarrow> mstate \<Rightarrow> mstate option" where
  "rep f 0 k x = k x"
| "rep f (Suc n) k x =
     (case f (\<lambda>y. if length (fst y) < length (fst x) then rep f n k y else None) x of
        Some z \<Rightarrow> Some z
      | None \<Rightarrow> k x)"

primrec rmatch :: "regex \<Rightarrow> cont \<Rightarrow> mstate \<Rightarrow> mstate option" where
  "rmatch Epsilon k x = k x"
| "rmatch (Sym P) k x =
     (case fst x of [] \<Rightarrow> None | c # cs \<Rightarrow> if P c then k (cs, snd x) else None)"
| "rmatch (Cat r1 r2) k x = rmatch r1 (rmatch r2 k) x"
| "rmatch (Alt r1 r2) k x =
     (case rmatch r1 k x of Some z \<Rightarrow> Some z | None \<Rightarrow> rmatch r2 k x)"
| "rmatch (Rep r) k x = rep (rmatch r) (length (fst x)) k x"
| "rmatch (Cap i r) k x =
     rmatch r
       (\<lambda>y. k (fst y, (snd y)[i := Some (take (length (fst x) - length (fst y)) (fst x))])) x"

text \<open>
  The character classes \<^verbatim>\<open>\s\<close> and \<^verbatim>\<open>\w\<close> of a \<^verbatim>\<open>str\<close> pattern, on the code points
  below 256: Unicode white space and Unicode alphanumerics with the underscore.
\<close>

definition is_space :: "char \<Rightarrow> bool" where
  "is_space c =
     (let n = (of_char c :: nat) in
        (9 \<le> n \<and> n \<le> 13) \<or> (28 \<le> n \<and> n \<le> 32) \<or> n = 133 \<or> n = 160)"

definition is_word :: "char \<Rightarrow> bool" where
  "is_word c =
     (let n = (of_char c :: nat) in
        (48 \<le> n \<and> n \<le> 57) \<or> (65 \<le> n \<and> n \<le> 90) \<or> n = 95 \<or> (97 \<le> n \<and> n \<le> 122) \<or>
        n = 170 \<or> n = 178 \<or> n = 179 \<or> n = 181 \<or> n = 185 \<or> n = 186 \<or>
        (188 \<le> n \<and> n \<le> 190) \<or> (192 \<le> n \<and> n \<le> 214) \<or> (216 \<le> n \<and> n \<le> 246) \<or>
        (248 \<le> n \<and> n \<le> 255))"

text \<open>The pattern syntax: a literal text, a sequence, \<^verbatim>\<open>*\<close>, \<^verbatim>\<open>+\<close>, \<^verbatim>\<open>?\<close>, sets.\<close>

primrec rlit :: "string \<Rightarrow> regex" where
  "rlit [] = Epsilon"
| "rlit (c # cs) = Cat (Sym (\<lambda>x. x = c)) (rlit cs)"

primrec rseq :: "regex list \<Rightarrow> regex" where
  "rseq [] = Epsilon"
| "rseq (r # rs) = Cat r (rseq rs)"

definition rstar :: "regex \<Rightarrow> regex" where
  "rstar r = Rep r"

definition rplus :: "regex \<Rightarrow> regex" where
  "rplus r = Cat r (Rep r)"

definition ropt :: "regex \<Rightarrow> regex" where
  "ropt r = Alt r Epsilon"

definition rchr :: "char \<Rightarrow> regex" where
  "rchr c = Sym (\<lambda>x. x = c)"

definition any_of :: "string \<Rightarrow> regex" where
  "any_of cs = Sym (\<lambda>x. x \<in> set cs)"

definition none_of :: "string \<Rightarrow> regex" where
  "none_of cs = Sym (\<lambda>x. x \<notin> set cs)"

definition re_s :: regex where
  "re_s = Sym is_space"

definition re_w :: regex where
  "re_w = Sym is_word"

text \<open>
  A match object: where the match starts and ends in the searched text, and its groups
  (group 0 is the whole match; a group that took no part is \<open>None\<close>).
\<close>

record re_match =
  m_start :: nat
  m_end :: nat
  m_groups :: groups

definition group :: "re_match \<Rightarrow> nat \<Rightarrow> string option" where
  "group m i = (if i < length (m_groups m) then m_groups m ! i else None)"

text \<open>
  \<open>match_at r n off s\<close>: the pattern \<open>r\<close> with \<open>n\<close> groups, tried at the start of \<open>s\<close>,
  which is the searched text from position \<open>off\<close> on.
\<close>

definition match_at :: "regex \<Rightarrow> nat \<Rightarrow> nat \<Rightarrow> string \<Rightarrow> re_match option" where
  "match_at r n off s =
     (case rmatch (Cap 0 r) Some (s, replicate (Suc n) None) of
        None \<Rightarrow> None
      | Some y \<Rightarrow>
          Some \<lparr>m_start = off, m_end = off + (length s - length (fst y)), m_groups = snd y\<rparr>)"

text \<open>\<^verbatim>\<open>re.search\<close>: the match at the leftmost position that has one.\<close>

fun search_from :: "regex \<Rightarrow> nat \<Rightarrow> nat \<Rightarrow> string \<Rightarrow> re_match option" where
  "search_from r n off [] = match_at r n off []"
| "search_from r n off (c # cs) =
     (case match_at r n off (c # cs) of
        Some m \<Rightarrow> Some m
      | None \<Rightarrow> search_from r n (Suc off) cs)"

definition re_search :: "regex \<Rightarrow> nat \<Rightarrow> string \<Rightarrow> re_match option" where
  "re_search r n s = search_from r n 0 s"

text \<open>
  \<^verbatim>\<open>re.finditer\<close>: the matches from left to right, each search starting where the last
  match ended. The scan walks the text; \<open>skip\<close> counts the characters of the last match
  still to pass. None of the patterns scanned this way matches the empty text; after an
  empty match the scan would move on by one character.
\<close>

fun finditer_from :: "regex \<Rightarrow> nat \<Rightarrow> nat \<Rightarrow> nat \<Rightarrow> string \<Rightarrow> re_match list" where
  "finditer_from r n off skip [] =
     (if 0 < skip then [] else case match_at r n off [] of None \<Rightarrow> [] | Some m \<Rightarrow> [m])"
| "finditer_from r n off skip (c # cs) =
     (if 0 < skip then finditer_from r n (Suc off) (skip - 1) cs
      else case match_at r n off (c # cs) of
             None \<Rightarrow> finditer_from r n (Suc off) 0 cs
           | Some m \<Rightarrow> m # finditer_from r n (Suc off) (m_end m - off - 1) cs)"

definition re_finditer :: "regex \<Rightarrow> nat \<Rightarrow> string \<Rightarrow> re_match list" where
  "re_finditer r n s = finditer_from r n 0 0 s"

text \<open>\<^verbatim>\<open>re.findall\<close> for a pattern with one group: the texts of group 1.\<close>

definition re_findall1 :: "regex \<Rightarrow> string \<Rightarrow> string list" where
  "re_findall1 r s =
     map (\<lambda>m. case group m 1 of None \<Rightarrow> [] | Some t \<Rightarrow> t) (re_finditer r 1 s)"

section \<open>The data model\<close>

datatype HttpMethod = GET | POST | PUT | DELETE | PATCH | HEAD | OPTIONS

fun HttpMethod_value :: "HttpMethod \<Rightarrow> string" where
  "HttpMethod_value GET = ''GET''"
| "HttpMethod_value POST = ''POST''"
| "HttpMethod_value PUT = ''PUT''"
| "HttpMethod_value DELETE = ''DELETE''"
| "HttpMethod_value PATCH = ''PATCH''"
| "HttpMethod_value HEAD = ''HEAD''"
| "HttpMethod_value OPTIONS = ''OPTIONS''"

text \<open>
  A value of the table \<^verbatim>\<open>JAX_RS_ANNOTATIONS\<close> is an \<^verbatim>\<open>HttpMethod\<close> or a string. A
  parameter's \<^verbatim>\<open>in_\<close> is read from that table, so it has the same type.
\<close>

datatype ann_value = AMethod HttpMethod | AStr string

record Parameter =
  param_name :: string
  param_in :: ann_value
  param_type :: string
  param_required :: bool
  param_description :: string

record Endpoint =
  ep_path :: string
  ep_method :: HttpMethod
  ep_operation_id :: string
  ep_summary :: string
  ep_description :: string
  ep_parameters :: "Parameter list"
  ep_request_body :: "yaml option"
  ep_responses :: "(string \<times> yaml) list"
  ep_consumes :: "string list"
  ep_produces :: "string list"
  ep_tags :: "string list"

record APIResource =
  res_class_name :: string
  res_base_path :: string
  res_endpoints :: "Endpoint list"
  res_description :: string

text \<open>
  The exceptions the analysis of one file can meet: a file that cannot be read, and a
  key missing from a dict. \<^verbatim>\<open>_analyze_java_file\<close> catches both.
\<close>

datatype exn = OSError string | KeyError string

fun exn_str :: "exn \<Rightarrow> string" where
  "exn_str (OSError msg) = msg"
| "exn_str (KeyError k) = [CHR 0x27] @ k @ [CHR 0x27]"

text \<open>
  A \<^verbatim>\<open>for\<close> loop that appends what each round yields to a list, and stops at the first
  round that raises.
\<close>

primrec for_append :: "('a \<Rightarrow> exn + 'b list) \<Rightarrow> 'a list \<Rightarrow> exn + 'b list" where
  "for_append f [] = Inr []"
| "for_append f (x # xs) =
     (case f x of
        Inl e \<Rightarrow> Inl e
      | Inr ys \<Rightarrow> (case for_append f xs of Inl e \<Rightarrow> Inl e | Inr zs \<Rightarrow> Inr (ys @ zs)))"

section \<open>\<^verbatim>\<open>JaxRSAnalyzer\<close>\<close>

definition JAX_RS_ANNOTATIONS :: "(string \<times> ann_value) list" where
  "JAX_RS_ANNOTATIONS =
     [(''@Path'', AStr ''path''),
      (''@GET'', AMethod GET),
      (''@POST'', AMethod POST),
      (''@PUT'', AMethod PUT),
      (''@DELETE'', AMethod DELETE),
      (''@HEAD'', AMethod HEAD),
      (''@OPTIONS'', AMethod OPTIONS),
      (''@PATCH'', AMethod PATCH),
      (''@Consumes'', AStr ''consumes''),
      (''@Produces'', AStr ''produces''),
      (''@PathParam'', AStr ''path''),
      (''@QueryParam'', AStr ''query''),
      (''@HeaderParam'', AStr ''header''),
      (''@CookieParam'', AStr ''cookie''),
      (''@FormParam'', AStr ''formData'')]"

text \<open>The text of a group that takes part in every match of its pattern.\<close>

definition group_text :: "re_match \<Rightarrow> nat \<Rightarrow> string" where
  "group_text m i = (case group m i of None \<Rightarrow> [] | Some t \<Rightarrow> t)"

definition quotes :: string where
  "quotes = [CHR 0x22, CHR 0x27]"

definition newline :: char where
  "newline = CHR 0x0A"

subsection \<open>\<^verbatim>\<open>_is_jaxrs_resource\<close>, \<^verbatim>\<open>_extract_class_name\<close>, \<^verbatim>\<open>_extract_class_path\<close>\<close>

text \<open>
  \<^verbatim>\<open>@Path\s*\(\<close>, \<^verbatim>\<open>@GET[\s\n]\<close>, \<^verbatim>\<open>@POST[\s\n]\<close>, \<^verbatim>\<open>@PUT[\s\n]\<close>, \<^verbatim>\<open>@DELETE[\s\n]\<close>
\<close>

definition space_or_newline :: regex where
  "space_or_newline = Sym (\<lambda>c. is_space c \<or> c = newline)"

definition jaxrs_patterns :: "regex list" where
  "jaxrs_patterns =
     [rseq [rlit ''@Path'', rstar re_s, rchr CHR ''(''],
      rseq [rlit ''@GET'', space_or_newline],
      rseq [rlit ''@POST'', space_or_newline],
      rseq [rlit ''@PUT'', space_or_newline],
      rseq [rlit ''@DELETE'', space_or_newline]]"

definition is_jaxrs_resource :: "string \<Rightarrow> bool" where
  "is_jaxrs_resource content = list_ex (\<lambda>r. re_search r 0 content \<noteq> None) jaxrs_patterns"

text \<open>\<^verbatim>\<open>public\s+class\s+(\w+)\<close>\<close>

definition class_name_pattern :: regex where
  "class_name_pattern =
     rseq [rlit ''public'', rplus re_s, rlit ''class'', rplus re_s, Cap 1 (rplus re_w)]"

definition extract_class_name :: "string \<Rightarrow> string" where
  "extract_class_name content =
     (case re_search class_name_pattern 1 content of
        Some m \<Rightarrow> group_text m 1
      | None \<Rightarrow> ''Unknown'')"

text \<open>
  \<^verbatim>\<open>@Path\s*\(\s*["\']([^"\']+)["\']\s*\)\s*(?:public\s+)?class\<close>,
  \<^verbatim>\<open>@Path\s*\(\s*["\']([^"\']+)["\']\s*\)\<close> and \<^verbatim>\<open>public\s+class\s+\w+\<close>
\<close>

definition class_pattern :: regex where
  "class_pattern =
     rseq [rlit ''@Path'', rstar re_s, rchr CHR ''('', rstar re_s, any_of quotes,
           Cap 1 (rplus (none_of quotes)), any_of quotes, rstar re_s, rchr CHR '')'',
           rstar re_s, ropt (rseq [rlit ''public'', rplus re_s]), rlit ''class'']"

definition path_pattern :: regex where
  "path_pattern =
     rseq [rlit ''@Path'', rstar re_s, rchr CHR ''('', rstar re_s, any_of quotes,
           Cap 1 (rplus (none_of quotes)), any_of quotes, rstar re_s, rchr CHR '')'']"

definition class_decl_pattern :: regex where
  "class_decl_pattern = rseq [rlit ''public'', rplus re_s, rlit ''class'', rplus re_s, rplus re_w]"

definition extract_class_path :: "string \<Rightarrow> string option" where
  "extract_class_path content =
     (case re_search class_pattern 1 content of
        Some m \<Rightarrow> group m 1
      | None \<Rightarrow>
          (case re_search path_pattern 1 content of
             Some path_match \<Rightarrow>
               (let path_pos = m_end path_match in
                  case re_search class_decl_pattern 0 (drop path_pos content) of
                    Some class_match \<Rightarrow>
                      if m_start class_match < 100 then group path_match 1 else None
                  | None \<Rightarrow> None)
           | None \<Rightarrow> None))"

subsection \<open>The parts of an endpoint\<close>

text \<open>
  \<^verbatim>\<open>_extract_http_method\<close>: the first HTTP method of the table, in the table's order,
  whose annotation occurs in the text.
\<close>

fun first_http_method :: "(string \<times> ann_value) list \<Rightarrow> string \<Rightarrow> HttpMethod option" where
  "first_http_method [] annotations = None"
| "first_http_method ((annotation, AMethod m) # items) annotations =
     (if str_contains annotations annotation then Some m
      else first_http_method items annotations)"
| "first_http_method ((annotation, AStr t) # items) annotations =
     first_http_method items annotations"

definition extract_http_method :: "string \<Rightarrow> HttpMethod option" where
  "extract_http_method annotations = first_http_method JAX_RS_ANNOTATIONS annotations"

definition extract_method_path :: "string \<Rightarrow> string" where
  "extract_method_path annotations =
     (case re_search path_pattern 1 annotations of
        Some m \<Rightarrow> group_text m 1
      | None \<Rightarrow> [])"

text \<open>
  \<^verbatim>\<open>_extract_media_types\<close>: the pattern is
  \<^verbatim>\<open>{annotation_type}\s*\(\s*\{?\s*([^)]+)\s*\}?\s*\)\<close>, and the media types are what
  \<^verbatim>\<open>["\']([^"\']+)["\']\<close> finds in its group.
\<close>

definition media_pattern :: "string \<Rightarrow> regex" where
  "media_pattern annotation_type =
     rseq [rlit annotation_type, rstar re_s, rchr CHR ''('', rstar re_s, ropt (rchr CHR ''{''),
           rstar re_s, Cap 1 (rplus (none_of '')'')), rstar re_s, ropt (rchr CHR ''}''),
           rstar re_s, rchr CHR '')'']"

definition quoted_pattern :: regex where
  "quoted_pattern = rseq [any_of quotes, Cap 1 (rplus (none_of quotes)), any_of quotes]"

definition extract_media_types :: "string \<Rightarrow> string \<Rightarrow> string list" where
  "extract_media_types annotations annotation_type =
     (case re_search (media_pattern annotation_type) 1 annotations of
        Some m \<Rightarrow> re_findall1 quoted_pattern (group_text m 1)
      | None \<Rightarrow> [])"

definition type_mapping :: "(string \<times> string) list" where
  "type_mapping =
     [(''String'', ''string''),
      (''int'', ''integer''),
      (''Integer'', ''integer''),
      (''long'', ''integer''),
      (''Long'', ''integer''),
      (''float'', ''number''),
      (''Float'', ''number''),
      (''double'', ''number''),
      (''Double'', ''number''),
      (''boolean'', ''boolean''),
      (''Boolean'', ''boolean''),
      (''Date'', ''string''),
      (''LocalDate'', ''string''),
      (''LocalDateTime'', ''string'')]"

definition map_java_to_openapi_type :: "string \<Rightarrow> string" where
  "map_java_to_openapi_type java_type =
     (case map_of type_mapping java_type of Some t \<Rightarrow> t | None \<Rightarrow> ''string'')"

text \<open>
  \<^verbatim>\<open>_extract_parameters\<close>: the pattern is
  \<^verbatim>\<open>@(\w+Param)\s*\(\s*["\']([^"\']+)["\']\s*\)\s+(\w+)\s+(\w+)\<close>. The second argument,
  \<^verbatim>\<open>content\<close>, is not used.
\<close>

definition param_pattern :: regex where
  "param_pattern =
     rseq [rchr CHR ''@'', Cap 1 (rseq [rplus re_w, rlit ''Param'']), rstar re_s,
           rchr CHR ''('', rstar re_s, any_of quotes, Cap 2 (rplus (none_of quotes)),
           any_of quotes, rstar re_s, rchr CHR '')'', rplus re_s, Cap 3 (rplus re_w),
           rplus re_s, Cap 4 (rplus re_w)]"

definition param_of_match :: "re_match \<Rightarrow> exn + Parameter list" where
  "param_of_match m =
     (let param_type = group_text m 1;
          param_name = group_text m 2;
          java_type = group_text m 3;
          var_name = group_text m 4
      in if param_type \<in> set [''PathParam'', ''QueryParam'', ''HeaderParam'', ''CookieParam'']
         then (case map_of JAX_RS_ANNOTATIONS (''@'' @ param_type) of
                 None \<Rightarrow> Inl (KeyError (''@'' @ param_type))
               | Some in_ \<Rightarrow>
                   Inr [\<lparr>param_name = param_name,
                         param_in = in_,
                         param_type = map_java_to_openapi_type java_type,
                         param_required = (in_ = AStr ''path''),
                         param_description = []\<rparr>])
         else Inr [])"

definition extract_parameters :: "string \<Rightarrow> string \<Rightarrow> exn + Parameter list" where
  "extract_parameters method_signature content =
     for_append param_of_match (re_finditer param_pattern 4 method_signature)"

text \<open>
  \<^verbatim>\<open>_combine_paths\<close>. The base path is \<^verbatim>\<open>None\<close> when the class has no \<^verbatim>\<open>@Path\<close>;
  \<^verbatim>\<open>not base_path\<close> holds for \<^verbatim>\<open>None\<close> and for the empty string.
\<close>

definition combine_paths :: "string option \<Rightarrow> string \<Rightarrow> string" where
  "combine_paths base_path method_path =
     (case base_path of
        None \<Rightarrow> (if method_path = [] then ''/'' else method_path)
      | Some bp \<Rightarrow>
          if bp = [] then (if method_path = [] then ''/'' else method_path)
          else if method_path = [] then bp
          else rstrip CHR ''/'' bp @ ''/'' @ lstrip CHR ''/'' method_path)"

subsection \<open>\<^verbatim>\<open>_extract_endpoints\<close>\<close>

text \<open>
  \<^verbatim>\<open>(@\w+\s*(?:\([^)]*\))?\s*)*\s*public\s+\w+\s+(\w+)\s*\([^)]*\)\<close>
\<close>

definition method_pattern :: regex where
  "method_pattern =
     rseq [rstar (Cap 1 (rseq [rchr CHR ''@'', rplus re_w, rstar re_s,
                               ropt (rseq [rchr CHR ''('', rstar (none_of '')''), rchr CHR '')'']),
                               rstar re_s])),
           rstar re_s, rlit ''public'', rplus re_s, rplus re_w, rplus re_s, Cap 2 (rplus re_w),
           rstar re_s, rchr CHR ''('', rstar (none_of '')''), rchr CHR '')'']"

text \<open>
  The body of the loop for one match: no endpoint (\<^verbatim>\<open>continue\<close>) when the text of
  group 1 has no HTTP method, else the endpoint.
\<close>

definition endpoint_of_match :: "string \<Rightarrow> string option \<Rightarrow> re_match \<Rightarrow> exn + Endpoint list" where
  "endpoint_of_match content base_path m =
     (let annotations = (case group m 1 of None \<Rightarrow> [] | Some t \<Rightarrow> t);
          method_name = (case group m 2 of None \<Rightarrow> ''None'' | Some t \<Rightarrow> t)
      in case extract_http_method annotations of
           None \<Rightarrow> Inr []
         | Some http_method \<Rightarrow>
             (let method_path = extract_method_path annotations;
                  full_path = combine_paths base_path method_path
              in case extract_parameters (group_text m 0) content of
                   Inl e \<Rightarrow> Inl e
                 | Inr parameters \<Rightarrow>
                     (let consumes = extract_media_types annotations ''@Consumes'';
                          produces = extract_media_types annotations ''@Produces''
                      in Inr [\<lparr>ep_path = full_path,
                               ep_method = http_method,
                               ep_operation_id = method_name,
                               ep_summary = [],
                               ep_description = [],
                               ep_parameters = parameters,
                               ep_request_body = None,
                               ep_responses = [],
                               ep_consumes =
                                 (if consumes = [] then [''application/json''] else consumes),
                               ep_produces =
                                 (if produces = [] then [''application/json''] else produces),
                               ep_tags = []\<rparr>])))"

definition extract_endpoints :: "string \<Rightarrow> string option \<Rightarrow> exn + Endpoint list" where
  "extract_endpoints content base_path =
     for_append (endpoint_of_match content base_path) (re_finditer method_pattern 2 content)"

subsection \<open>\<^verbatim>\<open>_analyze_java_file\<close>, \<^verbatim>\<open>_find_java_files\<close>, \<^verbatim>\<open>analyze\<close>\<close>

text \<open>
  A file of the tree is its path and what reading it as UTF-8 text gives: the text or
  the exception. The file system gives the files under a root in the order \<^verbatim>\<open>rglob\<close>
  walks them. What is printed is returned as a list of lines.
\<close>

type_synonym source_file = "string \<times> (exn + string)"
type_synonym file_system = "string \<Rightarrow> source_file list"

definition analyze_java_file :: "source_file \<Rightarrow> string list \<times> APIResource option" where
  "analyze_java_file f =
     (case snd f of
        Inl e \<Rightarrow> ([''Error analyzing '' @ fst f @ '': '' @ exn_str e], None)
      | Inr content \<Rightarrow>
          if \<not> is_jaxrs_resource content then ([], None)
          else (let class_name = extract_class_name content;
                    base_path = extract_class_path content
                in case extract_endpoints content base_path of
                     Inl e \<Rightarrow> ([''Error analyzing '' @ fst f @ '': '' @ exn_str e], None)
                   | Inr endpoints \<Rightarrow>
                       ([], Some \<lparr>res_class_name = class_name,
                                  res_base_path = (case base_path of None \<Rightarrow> [] | Some p \<Rightarrow> p),
                                  res_endpoints = endpoints,
                                  res_description = []\<rparr>)))"

record JaxRSAnalyzer =
  repo_path :: string
  resources :: "APIResource list"

definition JaxRSAnalyzer_init :: "string \<Rightarrow> JaxRSAnalyzer" where
  "JaxRSAnalyzer_init rp = \<lparr>repo_path = rp, resources = []\<rparr>"

definition find_java_files :: "file_system \<Rightarrow> JaxRSAnalyzer \<Rightarrow> source_file list" where
  "find_java_files fs self = filter (\<lambda>f. endswith (fst f) ''.java'') (fs (repo_path self))"

text \<open>
  The loop of \<^verbatim>\<open>analyze\<close> over the files, on the list \<^verbatim>\<open>self.resources\<close>: a resource
  is appended when the file gave one and it has an endpoint.
\<close>

fun analyze_loop :: "source_file list \<Rightarrow> APIResource list \<Rightarrow> string list \<times> APIResource list" where
  "analyze_loop [] rs = ([], rs)"
| "analyze_loop (f # fs) rs =
     (let (out, resource) = analyze_java_file f;
          rs' = (case resource of
                   None \<Rightarrow> rs
                 | Some r \<Rightarrow> if res_endpoints r \<noteq> [] then rs @ [r] else rs);
          (outs, rs'') = analyze_loop fs rs'
      in (out @ outs, rs''))"

text \<open>
  \<^verbatim>\<open>analyze\<close> returns what it printed, the analyzer after the call and the list it
  returns, which is \<^verbatim>\<open>self.resources\<close> itself.
\<close>

definition analyze :: "file_system \<Rightarrow> JaxRSAnalyzer \<Rightarrow> string list \<times> JaxRSAnalyzer \<times> APIResource list" where
  "analyze fs self =
     (let (out, rs) = analyze_loop (find_java_files fs self) (resources self)
      in (out, self\<lparr>resources := rs\<rparr>, rs))"

section \<open>\<^verbatim>\<open>OpenAPIGenerator\<close> and \<^verbatim>\<open>BackstageGenerator\<close>\<close>

text \<open>
  A dict comprehension over media types, every value the same schema: a later
  occurrence of a key overwrites the earlier one in its place.
\<close>

definition schema_object :: yaml where
  "schema_object = YDict [(''schema'', YDict [(''type'', YStr ''object'')])]"

definition content_of :: "string list \<Rightarrow> (string \<times> yaml) list" where
  "content_of media_types = foldl (\<lambda>d media_type. dict_set media_type schema_object d) [] media_types"

definition yaml_of_in :: "ann_value \<Rightarrow> yaml" where
  "yaml_of_in v = (case v of AStr t \<Rightarrow> YStr t | AMethod m \<Rightarrow> YStr (HttpMethod_value m))"

definition parameter_entry :: "Parameter \<Rightarrow> yaml" where
  "parameter_entry param =
     YDict [(''name'', YStr (param_name param)),
            (''in'', yaml_of_in (param_in param)),
            (''required'', YBool (param_required param)),
            (''schema'', YDict [(''type'', YStr (param_type param))])]"

text \<open>The operation of one endpoint of one resource.\<close>

definition operation_of :: "APIResource \<Rightarrow> Endpoint \<Rightarrow> (string \<times> yaml) list" where
  "operation_of resource endpoint =
     [(''operationId'', YStr (ep_operation_id endpoint)),
      (''summary'',
         YStr (if ep_summary endpoint \<noteq> [] then ep_summary endpoint
               else HttpMethod_value (ep_method endpoint) @ '' '' @ ep_path endpoint)),
      (''tags'', YList [YStr (res_class_name resource)]),
      (''responses'',
         YDict [(''200'',
                 YDict [(''description'', YStr ''Successful response''),
                        (''content'', YDict (content_of (ep_produces endpoint)))])])]
     @ (if ep_parameters endpoint \<noteq> []
        then [(''parameters'', YList (map parameter_entry (ep_parameters endpoint)))]
        else [])
     @ (if ep_method endpoint \<in> set [POST, PUT, PATCH] \<and> ep_consumes endpoint \<noteq> []
        then [(''requestBody'',
               YDict [(''content'', YDict (content_of (ep_consumes endpoint)))])]
        else [])"

text \<open>
  The body of the inner loop, on the dict \<^verbatim>\<open>openapi_spec["paths"]\<close>: the path gets an
  empty dict when it is new, then the operation is stored under the lowercased method.
\<close>

definition add_operation ::
  "APIResource \<Rightarrow> (string \<times> (string \<times> yaml) list) list \<Rightarrow> Endpoint \<Rightarrow>
   (string \<times> (string \<times> yaml) list) list" where
  "add_operation resource paths endpoint =
     (let path = ep_path endpoint;
          method_key = str_lower (HttpMethod_value (ep_method endpoint));
          paths1 = (if map_of paths path = None then dict_set path [] paths else paths);
          operations = (case map_of paths1 path of None \<Rightarrow> [] | Some ops \<Rightarrow> ops)
      in dict_set path (dict_set method_key (YDict (operation_of resource endpoint)) operations) paths1)"

definition add_resource ::
  "(string \<times> (string \<times> yaml) list) list \<Rightarrow> APIResource \<Rightarrow>
   (string \<times> (string \<times> yaml) list) list" where
  "add_resource paths resource = foldl (add_operation resource) paths (res_endpoints resource)"

definition generate_paths :: "APIResource list \<Rightarrow> (string \<times> (string \<times> yaml) list) list" where
  "generate_paths api_resources = foldl add_resource [] api_resources"

definition OpenAPIGenerator_generate :: "APIResource list \<Rightarrow> string \<Rightarrow> string \<Rightarrow> yaml" where
  "OpenAPIGenerator_generate api_resources title version =
     YDict [(''openapi'', YStr ''3.0.0''),
            (''info'',
               YDict [(''title'', YStr title),
                      (''version'', YStr version),
                      (''description'', YStr ''Auto-discovered API from JAX-RS annotations'')]),
            (''servers'',
               YList [YDict [(''url'', YStr ''http://localhost:8080''),
                             (''description'', YStr ''Local development server'')]]),
            (''paths'',
               YDict (map (\<lambda>entry. (fst entry, YDict (snd entry))) (generate_paths api_resources)))]"

definition BackstageGenerator_generate :: "APIResource list \<Rightarrow> string \<Rightarrow> string \<Rightarrow> yaml" where
  "BackstageGenerator_generate api_resources api_name openapi_path =
     YDict [(''apiVersion'', YStr ''backstage.io/v1alpha1''),
            (''kind'', YStr ''API''),
            (''metadata'',
               YDict [(''name'', YStr (replace_char CHR '' '' CHR ''-'' (str_lower api_name))),
                      (''title'', YStr api_name),
                      (''description'', YStr ''Auto-discovered JAX-RS API''),
                      (''annotations'',
                         YDict [(''backstage.io/source-location'',
                                 YStr ''url:https://github.com/your-org/your-repo'')])]),
            (''spec'',
               YDict [(''type'', YStr ''openapi''),
                      (''lifecycle'', YStr ''production''),
                      (''owner'', YStr ''team-unknown''),
                      (''system'', YStr ''unknown-system''),
                      (''definition'', YStr (''$text: ./'' @ openapi_path))])]"

text \<open>
  The (path, method) keys of a document: the keys of its \<^verbatim>\<open>paths\<close> dict, each with the
  keys of the dict stored under it.
\<close>

definition path_method_keys :: "yaml \<Rightarrow> (string \<times> string) list" where
  "path_method_keys doc =
     (case doc of
        YDict entries \<Rightarrow>
          (case map_of entries ''paths'' of
             Some (YDict paths) \<Rightarrow>
               concat (map (\<lambda>entry.
                              case snd entry of
                                YDict ops \<Rightarrow> map (\<lambda>op. (fst entry, fst op)) ops
                              | _ \<Rightarrow> [])
                           paths)
           | _ \<Rightarrow> [])
      | _ \<Rightarrow> [])"

text \<open>The (path, method) pairs of the model: one for each endpoint of each resource.\<close>

definition model_pairs :: "APIResource list \<Rightarrow> (string \<times> string) list" where
  "model_pairs api_resources =
     concat (map (\<lambda>resource.
                    map (\<lambda>endpoint.
                           (ep_path endpoint, str_lower (HttpMethod_value (ep_method endpoint))))
                        (res_endpoints resource))
                 api_resources)"

section \<open>\<^verbatim>\<open>main\<close>\<close>

text \<open>
  What a run does to the world, in order: the output directory it makes, the lines it
  prints and the documents it writes with \<^verbatim>\<open>yaml.dump\<close>. \<open>Truncated\<close> is a file that was opened
  for writing (so created, or emptied) when the dump raised: it holds at most a part of the
  document.
\<close>

datatype event = MakeDirs string | Print string | WriteYaml string yaml | Truncated string

text \<open>
  The part of the operating system a run meets: whether making a directory, opening a file
  for writing and writing the document to the open file succeed, each as the exception it
  raises or \<open>None\<close>. \<^verbatim>\<open>os.makedirs\<close> and \<^verbatim>\<open>open\<close> raise \<^verbatim>\<open>FileNotFoundError\<close>, an \<^verbatim>\<open>OSError\<close>, on
  the empty path.
\<close>

record os_state =
  makedirs_error :: "string \<Rightarrow> exn option"
  open_error :: "string \<Rightarrow> exn option"
  dump_error :: "string \<Rightarrow> exn option"

definition no_such_file :: exn where
  "no_such_file = OSError (''[Errno 2] No such file or directory: '' @ [CHR 0x27, CHR 0x27])"

definition os_makedirs :: "os_state \<Rightarrow> string \<Rightarrow> exn option" where
  "os_makedirs os name = (if name = [] then Some no_such_file else makedirs_error os name)"

definition open_w :: "os_state \<Rightarrow> string \<Rightarrow> exn option" where
  "open_w os name = (if name = [] then Some no_such_file else open_error os name)"

text \<open>
  \<^verbatim>\<open>save_to_file\<close>, the same in both generators: \<^verbatim>\<open>with open(output_path, 'w') as f\<close> and
  \<^verbatim>\<open>yaml.dump\<close> to \<^verbatim>\<open>f\<close>. It returns what it did to the file and the exception it raised.
\<close>

definition dump_to_file :: "os_state \<Rightarrow> yaml \<Rightarrow> string \<Rightarrow> event list \<times> exn option" where
  "dump_to_file os doc output_path =
     (case open_w os output_path of
        Some e \<Rightarrow> ([], Some e)
      | None \<Rightarrow>
          (case dump_error os output_path of
             Some e \<Rightarrow> ([Truncated output_path], Some e)
           | None \<Rightarrow> ([WriteYaml output_path doc], None)))"

definition OpenAPIGenerator_save_to_file ::
  "os_state \<Rightarrow> yaml \<Rightarrow> string \<Rightarrow> event list \<times> exn option" where
  "OpenAPIGenerator_save_to_file os spec output_path = dump_to_file os spec output_path"

definition BackstageGenerator_save_to_file ::
  "os_state \<Rightarrow> yaml \<Rightarrow> string \<Rightarrow> event list \<times> exn option" where
  "BackstageGenerator_save_to_file os catalog output_path = dump_to_file os catalog output_path"

definition resource_line :: "APIResource \<Rightarrow> event" where
  "resource_line resource =
     Print (''  - '' @ res_class_name resource @ '': '' @
            str_nat (length (res_endpoints resource)) @ '' endpoints'')"

text \<open>
  \<^verbatim>\<open>main\<close> returns the events of the run and the exception that ended it, if one did: nothing
  in \<^verbatim>\<open>main\<close> catches an exception of \<^verbatim>\<open>os.makedirs\<close> or of \<^verbatim>\<open>save_to_file\<close>, so the run stops
  where it is raised. The analysis runs after the output directory was made. Printing a line
  and walking the tree are taken to succeed.
\<close>

definition main :: "os_state \<Rightarrow> file_system \<Rightarrow> string \<Rightarrow> string \<Rightarrow> event list \<times> exn option" where
  "main os fs rp output_dir =
     (case os_makedirs os output_dir of
        Some e \<Rightarrow> ([], Some e)
      | None \<Rightarrow>
          (let (out, analyzer, api_resources) = analyze fs (JaxRSAnalyzer_init rp);
               started = [MakeDirs output_dir, Print (''Analyzing repository: '' @ rp)] @
                         map Print out
           in if api_resources = []
              then (started @ [Print ''No JAX-RS APIs found in the repository''], None)
              else
                (let found = started @
                       [Print (''Found '' @ str_nat (length api_resources) @ '' API resources'')] @
                       map resource_line api_resources;
                     openapi_spec =
                       OpenAPIGenerator_generate api_resources ''My JAX-RS API'' ''1.0.0'';
                     openapi_path = os_path_join output_dir ''openapi.yaml'';
                     (saved, raised) = OpenAPIGenerator_save_to_file os openapi_spec openapi_path
                 in case raised of
                      Some e \<Rightarrow> (found @ saved, Some e)
                    | None \<Rightarrow>
                        (let found1 = found @ saved @
                               [Print (''Generated OpenAPI spec: '' @ openapi_path)];
                             catalog =
                               BackstageGenerator_generate api_resources ''My JAX-RS API''
                                 ''openapi.yaml'';
                             catalog_path = os_path_join output_dir ''catalog-info.yaml'';
                             (saved1, raised1) =
                               BackstageGenerator_save_to_file os catalog catalog_path
                         in case raised1 of
                              Some e \<Rightarrow> (found1 @ saved1, Some e)
                            | None \<Rightarrow>
                                (found1 @ saved1 @
                                 [Print (''Generated Backstage catalog: '' @ catalog_path)],
                                 None)))))"

section \<open>Notions used to state the properties\<close>

subsection \<open>What extraction returns\<close>

text \<open>
  The extraction functions are written with exceptions as values. The functions below are what they
  return, without the exception: the lemmas of the next section show that they agree, so that
  extraction never raises.
\<close>

text \<open>
  The keys of \<^verbatim>\<open>JAX_RS_ANNOTATIONS\<close> whose value is an HTTP method, and the annotation text of a match
  of the method pattern: \<^verbatim>\<open>match.group(1) or ""\<close>.
\<close>

definition http_markers :: "string list" where
  "http_markers = [''@GET'', ''@POST'', ''@PUT'', ''@DELETE'', ''@PATCH'', ''@HEAD'', ''@OPTIONS'']"

definition annotations_of :: "re_match \<Rightarrow> string" where
  "annotations_of m = (case group m 1 of None \<Rightarrow> [] | Some t \<Rightarrow> t)"

text \<open>The parameters of one match, as a total function.\<close>

definition params_of :: "re_match \<Rightarrow> Parameter list" where
  "params_of m = (case param_of_match m of Inl e \<Rightarrow> [] | Inr ps \<Rightarrow> ps)"

definition found_parameters :: "string \<Rightarrow> Parameter list" where
  "found_parameters method_signature =
     (case extract_parameters method_signature [] of Inl e \<Rightarrow> [] | Inr ps \<Rightarrow> ps)"

definition or_json :: "string list \<Rightarrow> string list" where
  "or_json media_types = (if media_types = [] then [''application/json''] else media_types)"

definition endpoint_for :: "string option \<Rightarrow> string \<Rightarrow> string \<Rightarrow> string \<Rightarrow> Endpoint list" where
  "endpoint_for base_path annotations method_name signature =
     (case extract_http_method annotations of
        None \<Rightarrow> []
      | Some http_method \<Rightarrow>
          [\<lparr>ep_path = combine_paths base_path (extract_method_path annotations),
            ep_method = http_method,
            ep_operation_id = method_name,
            ep_summary = [],
            ep_description = [],
            ep_parameters = found_parameters signature,
            ep_request_body = None,
            ep_responses = [],
            ep_consumes = or_json (extract_media_types annotations ''@Consumes''),
            ep_produces = or_json (extract_media_types annotations ''@Produces''),
            ep_tags = []\<rparr>])"

definition endpoints_of :: "string option \<Rightarrow> re_match \<Rightarrow> Endpoint list" where
  "endpoints_of base_path m =
     endpoint_for base_path (annotations_of m)
       (case group m 2 of None \<Rightarrow> ''None'' | Some t \<Rightarrow> t) (group_text m 0)"

definition found_endpoints :: "string \<Rightarrow> string option \<Rightarrow> Endpoint list" where
  "found_endpoints content base_path =
     (case extract_endpoints content base_path of Inl e \<Rightarrow> [] | Inr es \<Rightarrow> es)"

text \<open>
  The two properties of a collected parameter: it is required exactly when it is a path
  parameter, and its location is one of the four OpenAPI locations.
\<close>

definition required_iff_path :: "Parameter \<Rightarrow> bool" where
  "required_iff_path p =
     ((param_in p = AStr ''path'' \<longrightarrow> param_required p) \<and>
      (param_in p \<in> {AStr ''query'', AStr ''header'', AStr ''cookie''} \<longrightarrow> \<not> param_required p))"

definition collected_location :: "Parameter \<Rightarrow> bool" where
  "collected_location p =
     (param_in p \<in> {AStr ''path'', AStr ''query'', AStr ''header'', AStr ''cookie''} \<and>
      param_in p \<noteq> AStr ''formData'')"

subsection \<open>Documents and runs\<close>

text \<open>
  The (path, method) pairs of a \<^verbatim>\<open>paths\<close> dictionary, and the dictionaries whose keys are distinct at
  both levels.
\<close>

definition pairs_of :: "(string \<times> (string \<times> yaml) list) list \<Rightarrow> (string \<times> string) list" where
  "pairs_of paths = concat (map (\<lambda>entry. map (\<lambda>op. (fst entry, fst op)) (snd entry)) paths)"

text \<open>Keys stay distinct.\<close>

definition dict_ok :: "(string \<times> (string \<times> yaml) list) list \<Rightarrow> bool" where
  "dict_ok paths = (distinct (map fst paths) \<and> list_all (\<lambda>e. distinct (map fst (snd e))) paths)"

text \<open>
  A document as a Python value: no mapping in it has a key twice. \<open>paths_ok\<close> is the same for the
  \<^verbatim>\<open>paths\<close> dictionary while it is built.
\<close>

fun yaml_ok :: "yaml \<Rightarrow> bool" where
  "yaml_ok (YStr s) = True"
| "yaml_ok (YBool b) = True"
| "yaml_ok (YList xs) = list_all yaml_ok xs"
| "yaml_ok (YDict d) = (distinct (map fst d) \<and> list_all (\<lambda>entry. yaml_ok (snd entry)) d)"

definition paths_ok :: "(string \<times> (string \<times> yaml) list) list \<Rightarrow> bool" where
  "paths_ok paths =
     (distinct (map fst paths) \<and> list_all (\<lambda>entry. yaml_ok (YDict (snd entry))) paths)"

text \<open>
  The events of \<^verbatim>\<open>main\<close> that write a file; the resources one scan adds to the analyzer, and the
  files that contribute one.
\<close>

fun is_write :: "event \<Rightarrow> bool" where
  "is_write (WriteYaml p d) = True"
| "is_write (Truncated p) = True"
| "is_write (MakeDirs p) = False"
| "is_write (Print l) = False"

definition kept :: "APIResource option \<Rightarrow> APIResource list" where
  "kept resource =
     (case resource of None \<Rightarrow> [] | Some r \<Rightarrow> if res_endpoints r \<noteq> [] then [r] else [])"

definition discovered :: "source_file list \<Rightarrow> APIResource list" where
  "discovered files = snd (analyze_loop files [])"

definition found_resources :: "file_system \<Rightarrow> string \<Rightarrow> APIResource list" where
  "found_resources fs rp = snd (snd (analyze fs (JaxRSAnalyzer_init rp)))"

definition qualifies :: "source_file \<Rightarrow> bool" where
  "qualifies f = (case snd f of Inl e \<Rightarrow> False | Inr content \<Rightarrow> is_jaxrs_resource content)"

subsection \<open>Matches of a pattern\<close>

text \<open>
  \<open>takes r u s h\<close>: in front of any rest \<open>s\<close>, the first way the pattern \<open>r\<close> matches is to consume \<open>u\<close>
  and to update the groups by \<open>h\<close>, whatever follows it in the pattern, provided what follows then
  matches. \<open>fails\<close> and \<open>stops\<close> say that a pattern, or a character class, does not match at the start
  of a text.
\<close>

definition takes :: "regex \<Rightarrow> string \<Rightarrow> string \<Rightarrow> (groups \<Rightarrow> groups) \<Rightarrow> bool" where
  "takes r u s h = (\<forall>k g z. k (s, h g) = Some z \<longrightarrow> rmatch r k (u @ s, g) = Some z)"

definition rep_takes :: "regex \<Rightarrow> string \<Rightarrow> string \<Rightarrow> (groups \<Rightarrow> groups) \<Rightarrow> bool" where
  "rep_takes r u s h =
     (\<forall>n k g z. length (u @ s) \<le> n \<longrightarrow> k (s, h g) = Some z \<longrightarrow>
        rep (rmatch r) n k (u @ s, g) = Some z)"

definition fails :: "regex \<Rightarrow> string \<Rightarrow> bool" where
  "fails r s = (\<forall>k g. rmatch r k (s, g) = None)"

definition stops :: "(char \<Rightarrow> bool) \<Rightarrow> string \<Rightarrow> bool" where
  "stops P s = (case s of [] \<Rightarrow> True | c # cs \<Rightarrow> \<not> P c)"

text \<open>
  A match found in a suffix of the text, moved to its place in the text; no match of the pattern
  starts inside a prefix; every match of a pattern holds a character with a given property.
\<close>

definition shift_match :: "nat \<Rightarrow> re_match \<Rightarrow> re_match" where
  "shift_match d m = m\<lparr>m_start := m_start m + d, m_end := m_end m + d\<rparr>"

primrec no_match_in :: "regex \<Rightarrow> nat \<Rightarrow> string \<Rightarrow> string \<Rightarrow> bool" where
  "no_match_in r n [] t = True"
| "no_match_in r n (c # cs) t = (match_at r n 0 (c # cs @ t) = None \<and> no_match_in r n cs t)"

primrec needs :: "regex \<Rightarrow> (char \<Rightarrow> bool) \<Rightarrow> bool" where
  "needs Epsilon P = False"
| "needs (Sym Q) P = (\<forall>c. Q c \<longrightarrow> P c)"
| "needs (Cat r1 r2) P = (needs r1 P \<or> needs r2 P)"
| "needs (Alt r1 r2) P = (needs r1 P \<and> needs r2 P)"
| "needs (Rep r) P = False"
| "needs (Cap i r) P = needs r P"

subsection \<open>Java text\<close>

text \<open>
  An annotation block as \<^verbatim>\<open>method_pattern\<close> reads it (\<^verbatim>\<open>@\<close>, a name, white space, an optional
  argument list without a closing parenthesis inside, white space) and a method signature
  (\<^verbatim>\<open>public\<close>, a return type, a name, an argument list), with the text each of them stands for.
\<close>

datatype annotation =
  Annotation (a_name: string) (a_space: string) (a_args: "string option") (a_trail: string)

fun ann_text :: "annotation \<Rightarrow> string" where
  "ann_text (Annotation w sp None tr) = ''@'' @ w @ sp @ tr"
| "ann_text (Annotation w sp (Some a) tr) = ''@'' @ w @ sp @ ''('' @ a @ '')'' @ tr"

fun ann_ok :: "annotation \<Rightarrow> bool" where
  "ann_ok (Annotation w sp args tr) =
     (w \<noteq> [] \<and> list_all is_word w \<and> list_all is_space sp \<and> list_all is_space tr \<and>
      (case args of None \<Rightarrow> True | Some a \<Rightarrow> CHR '')'' \<notin> set a))"

fun ann_closed :: "annotation \<Rightarrow> bool" where
  "ann_closed (Annotation w sp args tr) = (args \<noteq> None \<or> sp @ tr \<noteq> [])"

datatype java_signature =
  Signature (s_space1: string) (s_type: string) (s_space2: string) (s_name: string)
            (s_space3: string) (s_args: string)

fun sig_text :: "java_signature \<Rightarrow> string" where
  "sig_text (Signature sp1 ty sp2 nm sp3 args) =
     ''public'' @ sp1 @ ty @ sp2 @ nm @ sp3 @ ''('' @ args @ '')''"

fun sig_ok :: "java_signature \<Rightarrow> bool" where
  "sig_ok (Signature sp1 ty sp2 nm sp3 args) =
     (sp1 \<noteq> [] \<and> list_all is_space sp1 \<and> ty \<noteq> [] \<and> list_all is_word ty \<and>
      sp2 \<noteq> [] \<and> list_all is_space sp2 \<and> nm \<noteq> [] \<and> list_all is_word nm \<and>
      list_all is_space sp3 \<and> CHR '')'' \<notin> set args)"

definition annotation_pattern :: regex where
  "annotation_pattern =
     rseq [rchr CHR ''@'', rplus re_w, rstar re_s,
           ropt (rseq [rchr CHR ''('', rstar (none_of '')''), rchr CHR '')'']),
           rstar re_s]"

definition signature_pattern :: regex where
  "signature_pattern =
     rseq [rstar re_s, rlit ''public'', rplus re_s, rplus re_w, rplus re_s, Cap 2 (rplus re_w),
           rstar re_s, rchr CHR ''('', rstar (none_of '')''), rchr CHR '')'']"

definition ann_follow :: "annotation \<Rightarrow> string \<Rightarrow> bool" where
  "ann_follow b s =
     (stops is_space s \<and>
      (a_args b = None \<longrightarrow>
         stops (\<lambda>c. c = CHR ''('') s \<and> (a_space b @ a_trail b = [] \<longrightarrow> stops is_word s)))"

definition anns_text :: "annotation list \<Rightarrow> string" where
  "anns_text bs = concat (map ann_text bs)"

text \<open>
  A class-level path annotation as \<^verbatim>\<open>class_pattern\<close> reads it: \<^verbatim>\<open>@Path\<close>, a quoted path in
  parentheses, then \<^verbatim>\<open>class\<close> or \<^verbatim>\<open>public class\<close>, with white space between the parts.
\<close>

datatype path_header =
  PathHeader (p_space1: string) (p_space2: string) (p_quote1: char) (p_text: string)
    (p_quote2: char) (p_space3: string) (p_space4: string) (p_public: "string option")

fun header_text :: "path_header \<Rightarrow> string" where
  "header_text (PathHeader sp1 sp2 q1 t q2 sp3 sp4 pub) =
     ''@Path'' @ sp1 @ ''('' @ sp2 @ [q1] @ t @ [q2] @ sp3 @ '')'' @ sp4 @
     (case pub of None \<Rightarrow> [] | Some sp5 \<Rightarrow> ''public'' @ sp5) @ ''class''"

fun header_ok :: "path_header \<Rightarrow> bool" where
  "header_ok (PathHeader sp1 sp2 q1 t q2 sp3 sp4 pub) =
     (list_all is_space sp1 \<and> list_all is_space sp2 \<and> q1 \<in> set quotes \<and> t \<noteq> [] \<and>
      list_all (\<lambda>c. c \<notin> set quotes) t \<and> q2 \<in> set quotes \<and> list_all is_space sp3 \<and>
      list_all is_space sp4 \<and>
      (case pub of None \<Rightarrow> True | Some sp5 \<Rightarrow> sp5 \<noteq> [] \<and> list_all is_space sp5))"

text \<open>A form parameter: \<^verbatim>\<open>@FormParam("name") type variable\<close>.\<close>

definition form_param_text ::
  "char \<Rightarrow> string \<Rightarrow> char \<Rightarrow> string \<Rightarrow> string \<Rightarrow> string \<Rightarrow> string \<Rightarrow> string" where
  "form_param_text q1 nm q2 sp1 ty sp2 v =
     ''@FormParam('' @ [q1] @ nm @ [q2] @ '')'' @ sp1 @ ty @ sp2 @ v"

definition form_param_ok ::
  "char \<Rightarrow> string \<Rightarrow> char \<Rightarrow> string \<Rightarrow> string \<Rightarrow> string \<Rightarrow> string \<Rightarrow> bool" where
  "form_param_ok q1 nm q2 sp1 ty sp2 v =
     (q1 \<in> set quotes \<and> q2 \<in> set quotes \<and> nm \<noteq> [] \<and> list_all (\<lambda>c. c \<notin> set quotes) nm \<and>
      sp1 \<noteq> [] \<and> list_all is_space sp1 \<and> ty \<noteq> [] \<and> list_all is_word ty \<and>
      sp2 \<noteq> [] \<and> list_all is_space sp2 \<and> v \<noteq> [] \<and> list_all is_word v)"

subsection \<open>Sample inputs\<close>

text \<open>
  A repository with one resource class (and a text file, an unreadable file and a class without
  annotations), and a few method signatures.
\<close>

definition users_java :: string where
  "users_java =
     ''@Path(\"/users\")\<newline>public class UserResource {\<newline>    @GET\<newline>    public String list() {\<newline>        return null;\<newline>    }\<newline>}\<newline>''"

definition users_repo :: file_system where
  "users_repo root =
     (if root = ''repo''
      then [(''repo/README.md'', Inr ''@GET and @Path(...) are scanned''),
            (''repo/src/Broken.java'', Inl (OSError ''Permission denied'')),
            (''repo/src/Util.java'', Inr ''public class Util { }''),
            (''repo/src/UserResource.java'', Inr users_java)]
      else [])"

definition users_endpoint :: Endpoint where
  "users_endpoint =
     \<lparr>ep_path = ''/users'', ep_method = GET, ep_operation_id = ''list'', ep_summary = [],
      ep_description = [], ep_parameters = [], ep_request_body = None, ep_responses = [],
      ep_consumes = [''application/json''], ep_produces = [''application/json''], ep_tags = []\<rparr>"

definition users_resource :: APIResource where
  "users_resource =
     \<lparr>res_class_name = ''UserResource'', res_base_path = ''/users'',
      res_endpoints = [users_endpoint], res_description = []\<rparr>"

text \<open>
  The same class with a generic return type, and declared \<^verbatim>\<open>abstract\<close>; an operating system on
  which nothing fails.
\<close>

definition generic_java :: string where
  "generic_java =
     ''@Path(\"/users\")\<newline>public class UserResource {\<newline>    @GET\<newline>    public List<String> list() {\<newline>        return null;\<newline>    }\<newline>}\<newline>''"

definition generic_repo :: file_system where
  "generic_repo root =
     (if root = ''repo'' then [(''repo/src/UserResource.java'', Inr generic_java)] else [])"

definition abstract_java :: string where
  "abstract_java =
     ''@Path(\"/users\")\<newline>public abstract class UserResource {\<newline>    @GET\<newline>    public String list() {\<newline>        return null;\<newline>    }\<newline>}\<newline>''"

definition abstract_repo :: file_system where
  "abstract_repo root =
     (if root = ''repo'' then [(''repo/src/UserResource.java'', Inr abstract_java)] else [])"

definition quiet_os :: os_state where
  "quiet_os =
     \<lparr>makedirs_error = (\<lambda>name. None), open_error = (\<lambda>name. None),
      dump_error = (\<lambda>name. None)\<rparr>"

definition empty_repo :: file_system where
  "empty_repo root = []"

definition helper_java :: string where
  "helper_java = ''@Path(\"/x\") public void helper(@PathParam(\"id\") long id)''"

definition helper_match :: re_match where
  "helper_match =
     \<lparr>m_start = 0, m_end = 47,
      m_groups = [Some ''@Path(\"/x\") public void helper(@PathParam(\"id\")'',
                  Some ''@Path(\"/x\") '', Some ''helper'']\<rparr>"

definition produces_java :: string where
  "produces_java = ''@Produces(\"text/plain\") @GET public String a()''"

definition produces_match :: re_match where
  "produces_match =
     \<lparr>m_start = 0, m_end = 46,
      m_groups = [Some ''@Produces(\"text/plain\") @GET public String a()'', Some ''@GET '',
                  Some ''a'']\<rparr>"

definition produces_endpoint :: Endpoint where
  "produces_endpoint =
     \<lparr>ep_path = ''/'', ep_method = GET, ep_operation_id = ''a'', ep_summary = [],
      ep_description = [], ep_parameters = [], ep_request_body = None, ep_responses = [],
      ep_consumes = [''application/json''], ep_produces = [''application/json''], ep_tags = []\<rparr>"

definition id_param :: Parameter where
  "id_param =
     \<lparr>param_name = ''id'', param_in = AStr ''path'', param_type = ''integer'',
      param_required = True, param_description = []\<rparr>"

definition q_param :: Parameter where
  "q_param =
     \<lparr>param_name = ''q'', param_in = AStr ''query'', param_type = ''string'',
      param_required = False, param_description = []\<rparr>"

definition form_match :: re_match where
  "form_match =
     \<lparr>m_start = 0, m_end = 24,
      m_groups = [Some ''@FormParam(\"f\") String f'', Some ''FormParam'', Some ''f'',
                  Some ''String'', Some ''f'']\<rparr>"

definition form_endpoint :: Endpoint where
  "form_endpoint =
     \<lparr>ep_path = ''/'', ep_method = POST, ep_operation_id = ''add'', ep_summary = [],
      ep_description = [], ep_parameters = [], ep_request_body = None, ep_responses = [],
      ep_consumes = [''application/json''], ep_produces = [''application/json''], ep_tags = []\<rparr>"

definition sample_endpoint :: "string \<Rightarrow> HttpMethod \<Rightarrow> string \<Rightarrow> Endpoint" where
  "sample_endpoint path http_method operation_id =
     \<lparr>ep_path = path, ep_method = http_method, ep_operation_id = operation_id,
      ep_summary = [], ep_description = [], ep_parameters = [], ep_request_body = None,
      ep_responses = [], ep_consumes = [''application/json''],
      ep_produces = [''application/json''], ep_tags = []\<rparr>"

definition sample_resources :: "APIResource list" where
  "sample_resources =
     [\<lparr>res_class_name = ''A'', res_base_path = ''/a'',
       res_endpoints = [sample_endpoint ''/a'' GET ''list'', sample_endpoint ''/a'' POST ''add'',
                        sample_endpoint ''/b'' GET ''other''],
       res_description = []\<rparr>,
      \<lparr>res_class_name = ''B'', res_base_path = ''/a'',
       res_endpoints = [sample_endpoint ''/a'' GET ''again''],
       res_description = []\<rparr>]"

text \<open>
  A serializer and a parser for documents: every value is written after a letter that says
  what it is, a string after its length, a list and a mapping up to a closing letter. The parser
  reads a value from the front of a text and returns the rest.
\<close>

definition enc_str :: "string \<Rightarrow> string" where
  "enc_str s = replicate (length s) CHR ''+'' @ ''.'' @ s"

definition dec_str :: "string \<Rightarrow> (string \<times> string) option" where
  "dec_str t =
     (let n = length (takeWhile (\<lambda>c. c = CHR ''+'') t)
      in case dropWhile (\<lambda>c. c = CHR ''+'') t of
           [] \<Rightarrow> None
         | c # r \<Rightarrow> if c = CHR ''.'' \<and> n \<le> length r then Some (take n r, drop n r) else None)"

fun sample_dump :: "yaml \<Rightarrow> string" where
  "sample_dump (YStr s) = ''s'' @ enc_str s"
| "sample_dump (YBool b) = (if b then ''t'' else ''f'')"
| "sample_dump (YList xs) = ''l'' @ concat (map (\<lambda>x. ''i'' @ sample_dump x) xs) @ ''e''"
| "sample_dump (YDict d) =
     ''d'' @ concat (map (\<lambda>entry. ''k'' @ enc_str (fst entry) @ sample_dump (snd entry)) d) @ ''e''"

fun parse :: "nat \<Rightarrow> string \<Rightarrow> (yaml \<times> string) option"
  and parse_items :: "nat \<Rightarrow> string \<Rightarrow> (yaml list \<times> string) option"
  and parse_entries :: "nat \<Rightarrow> string \<Rightarrow> ((string \<times> yaml) list \<times> string) option" where
  "parse 0 t = None"
| "parse (Suc n) [] = None"
| "parse (Suc n) (c # t) =
     (if c = CHR ''s'' then map_option (\<lambda>r. (YStr (fst r), snd r)) (dec_str t)
      else if c = CHR ''t'' then Some (YBool True, t)
      else if c = CHR ''f'' then Some (YBool False, t)
      else if c = CHR ''l'' then map_option (\<lambda>r. (YList (fst r), snd r)) (parse_items n t)
      else if c = CHR ''d'' then map_option (\<lambda>r. (YDict (fst r), snd r)) (parse_entries n t)
      else None)"
| "parse_items 0 t = None"
| "parse_items (Suc n) [] = None"
| "parse_items (Suc n) (c # t) =
     (if c = CHR ''e'' then Some ([], t)
      else if c = CHR ''i''
      then (case parse n t of
              None \<Rightarrow> None
            | Some r \<Rightarrow> map_option (\<lambda>r'. (fst r # fst r', snd r')) (parse_items n (snd r)))
      else None)"
| "parse_entries 0 t = None"
| "parse_entries (Suc n) [] = None"
| "parse_entries (Suc n) (c # t) =
     (if c = CHR ''e'' then Some ([], t)
      else if c = CHR ''k''
      then (case dec_str t of
              None \<Rightarrow> None
            | Some k \<Rightarrow>
                (case parse n (snd k) of
                   None \<Rightarrow> None
                 | Some r \<Rightarrow>
                     map_option (\<lambda>r'. ((fst k, fst r) # fst r', snd r'))
                       (parse_entries n (snd r))))
      else None)"

definition sample_load :: "string \<Rightarrow> yaml option" where
  "sample_load t =
     (case parse (Suc (length t)) t of
        None \<Rightarrow> None
      | Some r \<Rightarrow> if snd r = [] then Some (fst r) else None)"

section \<open>Auxiliary facts\<close>

subsection \<open>Stripping slashes\<close>

lemma dropWhile_replicate_append:
  "m' = [] \<or> hd m' \<noteq> c \<Longrightarrow> dropWhile (\<lambda>x. x = c) (replicate j c @ m') = m'"
  by (cases m') (induction j; simp)+

lemma combine_paths_nonempty:
  "bp \<noteq> [] \<Longrightarrow> mp \<noteq> [] \<Longrightarrow>
   combine_paths (Some bp) mp = rstrip CHR ''/'' bp @ ''/'' @ lstrip CHR ''/'' mp"
  by (simp add: combine_paths_def)

lemma lstrip_replicate: "m' = [] \<or> hd m' \<noteq> c \<Longrightarrow> lstrip c (replicate j c @ m') = m'"
  by (simp add: lstrip_def dropWhile_replicate_append)

lemma rstrip_replicate: "b' = [] \<or> last b' \<noteq> c \<Longrightarrow> rstrip c (b' @ replicate i c) = b'"
proof -
  assume h: "b' = [] \<or> last b' \<noteq> c"
  have "rev b' = [] \<or> hd (rev b') \<noteq> c"
    using h by (auto simp: hd_rev)
  then have "dropWhile (\<lambda>x. x = c) (replicate i c @ rev b') = rev b'"
    by (rule dropWhile_replicate_append)
  then show ?thesis by (simp add: rstrip_def)
qed

subsection \<open>Extraction never raises\<close>

lemma for_append_total:
  "(\<And>x. x \<in> set xs \<Longrightarrow> f x = Inr (g x)) \<Longrightarrow> for_append f xs = Inr (concat (map g xs))"
  by (induction xs) simp_all

lemma for_append_filter:
  "(\<And>x. x \<in> set xs \<Longrightarrow> \<not> P x \<Longrightarrow> f x = Inr []) \<Longrightarrow>
   for_append f (filter P xs) = for_append f xs"
  by (induction xs) (auto split: sum.splits)

lemma for_append_member:
  "for_append f xs = Inr ys \<Longrightarrow> y \<in> set ys \<Longrightarrow> \<exists>x\<in>set xs. \<exists>zs. f x = Inr zs \<and> y \<in> set zs"
  by (induction xs arbitrary: ys) (auto split: sum.splits)

lemma extract_http_method_None:
  "extract_http_method annotations = None \<longleftrightarrow>
   (\<forall>a\<in>set http_markers. \<not> str_contains annotations a)"
  by (auto simp: extract_http_method_def JAX_RS_ANNOTATIONS_def http_markers_def)

lemma endpoint_of_match_skip:
  "\<forall>a\<in>set http_markers. \<not> str_contains (annotations_of m) a \<Longrightarrow>
   endpoint_of_match content base_path m = Inr []"
  using extract_http_method_None [of "annotations_of m"]
  by (simp add: endpoint_of_match_def annotations_of_def)

lemma param_of_match_total: "param_of_match m = Inr (params_of m)"
  by (auto simp: param_of_match_def params_of_def Let_def JAX_RS_ANNOTATIONS_def)

lemma extract_parameters_total:
  "extract_parameters method_signature content =
   Inr (concat (map params_of (re_finditer param_pattern 4 method_signature)))"
  unfolding extract_parameters_def
  by (rule for_append_total) (rule param_of_match_total)

lemma params_of_cases:
  "p \<in> set (params_of m) \<Longrightarrow>
   (param_in p = AStr ''path'' \<and> param_required p) \<or>
   (param_in p \<in> {AStr ''query'', AStr ''header'', AStr ''cookie''} \<and> \<not> param_required p)"
  by (auto simp: param_of_match_def params_of_def Let_def JAX_RS_ANNOTATIONS_def split: if_splits)

subsection \<open>The keys of the generated document\<close>

lemma map_of_dict_set: "map_of (dict_set k v d) = (map_of d)(k \<mapsto> v)"
  by (induction d) auto

lemma keys_dict_set: "fst ` set (dict_set k v d) = insert k (fst ` set d)"
  by (induction d) auto

lemma distinct_dict_set: "distinct (map fst d) \<Longrightarrow> distinct (map fst (dict_set k v d))"
  by (induction d) (auto simp: keys_dict_set)

lemma dict_set_new: "map_of d k = None \<Longrightarrow> dict_set k v d = d @ [(k, v)]"
  by (induction d) (auto split: if_splits)

lemma set_pairs_of:
  "set (pairs_of paths) = {(p, m). \<exists>ops. (p, ops) \<in> set paths \<and> m \<in> fst ` set ops}"
proof (rule set_eqI)
  fix x :: "string \<times> string"
  obtain p m where x: "x = (p, m)" by (cases x)
  have "(p, m) \<in> set (pairs_of paths) \<longleftrightarrow>
        (\<exists>e\<in>set paths. p = fst e \<and> m \<in> fst ` set (snd e))"
    by (auto simp: pairs_of_def)
  also have "\<dots> \<longleftrightarrow> (\<exists>ops. (p, ops) \<in> set paths \<and> m \<in> fst ` set ops)"
    by (metis prod.collapse fst_conv snd_conv)
  finally show "x \<in> set (pairs_of paths) \<longleftrightarrow>
      x \<in> {(p, m). \<exists>ops. (p, ops) \<in> set paths \<and> m \<in> fst ` set ops}"
    using x by simp
qed

lemma pairs_of_dict_set_same:
  "map_of paths p = Some old \<Longrightarrow> fst ` set new = insert m (fst ` set old) \<Longrightarrow>
   set (pairs_of (dict_set p new paths)) = insert (p, m) (set (pairs_of paths))"
proof (induction paths)
  case Nil
  then show ?case by simp
next
  case (Cons e paths)
  show ?case
  proof (cases "fst e = p")
    case True
    with Cons.prems have "snd e = old" by (cases e) simp
    with True Cons.prems(2) show ?thesis
      by (cases e) (auto simp: pairs_of_def image_iff)
  next
    case False
    with Cons.prems have "map_of paths p = Some old" by (cases e) simp
    from Cons.IH [OF this Cons.prems(2)] False show ?thesis
      by (auto simp: pairs_of_def)
  qed
qed

lemma pairs_of_add_operation:
  "set (pairs_of (add_operation resource paths endpoint)) =
   insert (ep_path endpoint, str_lower (HttpMethod_value (ep_method endpoint))) (set (pairs_of paths))"
proof (cases "map_of paths (ep_path endpoint)")
  case None
  let ?p = "ep_path endpoint"
  let ?paths1 = "paths @ [(?p, [])]"
  have m: "map_of ?paths1 ?p = Some []"
    using None by (simp add: map_add_def)
  have "set (pairs_of (dict_set ?p (dict_set (str_lower (HttpMethod_value (ep_method endpoint)))
           (YDict (operation_of resource endpoint)) []) ?paths1)) =
        insert (?p, str_lower (HttpMethod_value (ep_method endpoint))) (set (pairs_of ?paths1))"
    by (rule pairs_of_dict_set_same [OF m]) simp
  moreover have "set (pairs_of ?paths1) = set (pairs_of paths)"
    by (simp add: pairs_of_def)
  ultimately show ?thesis
    using None m by (simp add: add_operation_def Let_def dict_set_new del: dict_set.simps)
next
  case (Some old)
  let ?p = "ep_path endpoint"
  have "set (pairs_of (dict_set ?p (dict_set (str_lower (HttpMethod_value (ep_method endpoint)))
           (YDict (operation_of resource endpoint)) old) paths)) =
        insert (?p, str_lower (HttpMethod_value (ep_method endpoint))) (set (pairs_of paths))"
    by (rule pairs_of_dict_set_same [OF Some]) (simp add: keys_dict_set)
  then show ?thesis
    using Some by (simp add: add_operation_def Let_def)
qed

lemma pairs_of_add_resource:
  "set (pairs_of (foldl (add_operation resource) paths eps)) =
   set (pairs_of paths) \<union>
   (\<lambda>e. (ep_path e, str_lower (HttpMethod_value (ep_method e)))) ` set eps"
  by (induction eps arbitrary: paths) (auto simp: pairs_of_add_operation)

lemma pairs_of_generate_paths:
  "set (pairs_of (foldl add_resource paths rs)) = set (pairs_of paths) \<union> set (model_pairs rs)"
  by (induction rs arbitrary: paths)
     (auto simp: model_pairs_def add_resource_def pairs_of_add_resource)

lemma path_method_keys_generate:
  "path_method_keys (OpenAPIGenerator_generate rs title version) = pairs_of (generate_paths rs)"
  by (simp add: path_method_keys_def OpenAPIGenerator_generate_def pairs_of_def comp_def)

lemma list_all_dict_set:
  "list_all Q d \<Longrightarrow> Q (k, v) \<Longrightarrow> list_all Q (dict_set k v d)"
  by (induction d) auto

lemma dict_ok_dict_set:
  "dict_ok paths \<Longrightarrow> distinct (map fst ops) \<Longrightarrow> dict_ok (dict_set p ops paths)"
  by (simp add: dict_ok_def distinct_dict_set list_all_dict_set)

lemma dict_ok_lookup:
  "dict_ok paths \<Longrightarrow>
   distinct (map fst (case map_of paths p of None \<Rightarrow> [] | Some ops \<Rightarrow> ops))"
proof (cases "map_of paths p")
  case None
  then show ?thesis by simp
next
  case (Some ops)
  assume ok: "dict_ok paths"
  from Some have "(p, ops) \<in> set paths" by (rule map_of_SomeD)
  with ok show ?thesis using Some by (auto simp: dict_ok_def list_all_iff)
qed

lemma dict_ok_add_operation: "dict_ok paths \<Longrightarrow> dict_ok (add_operation resource paths endpoint)"
proof -
  assume ok: "dict_ok paths"
  let ?p = "ep_path endpoint"
  let ?paths1 = "if map_of paths ?p = None then dict_set ?p [] paths else paths"
  have ok1: "dict_ok ?paths1"
    using ok by (simp add: dict_ok_dict_set)
  have "distinct (map fst (case map_of ?paths1 ?p of None \<Rightarrow> [] | Some ops \<Rightarrow> ops))"
    using ok1 by (rule dict_ok_lookup)
  then have "distinct (map fst (dict_set (str_lower (HttpMethod_value (ep_method endpoint)))
      (YDict (operation_of resource endpoint))
      (case map_of ?paths1 ?p of None \<Rightarrow> [] | Some ops \<Rightarrow> ops)))"
    by (rule distinct_dict_set)
  with ok1 have "dict_ok (dict_set ?p (dict_set (str_lower (HttpMethod_value (ep_method endpoint)))
      (YDict (operation_of resource endpoint))
      (case map_of ?paths1 ?p of None \<Rightarrow> [] | Some ops \<Rightarrow> ops)) ?paths1)"
    by (rule dict_ok_dict_set)
  then show ?thesis
    by (simp add: add_operation_def Let_def)
qed

lemma dict_ok_generate_paths: "dict_ok (generate_paths rs)"
proof -
  have a: "dict_ok paths \<Longrightarrow> dict_ok (foldl (add_operation r) paths eps)" for paths r eps
    by (induction eps arbitrary: paths) (auto simp: dict_ok_add_operation)
  have b: "dict_ok paths \<Longrightarrow> dict_ok (foldl add_resource paths rs)" for paths
    by (induction rs arbitrary: paths) (auto simp: add_resource_def a)
  show ?thesis
    unfolding generate_paths_def by (rule b) (simp add: dict_ok_def)
qed

lemma distinct_pairs_of: "dict_ok paths \<Longrightarrow> distinct (pairs_of paths)"
proof (induction paths)
  case Nil
  then show ?case by (simp add: pairs_of_def)
next
  case (Cons e paths)
  then have "distinct (pairs_of paths)" by (simp add: dict_ok_def)
  moreover have "distinct (map (\<lambda>op. (fst e, fst op)) (snd e))"
    using Cons.prems by (simp add: dict_ok_def distinct_map inj_on_def comp_def)
  moreover have "set (map (\<lambda>op. (fst e, fst op)) (snd e)) \<inter> set (pairs_of paths) = {}"
    using Cons.prems by (auto simp: dict_ok_def set_pairs_of) (metis fst_conv image_eqI)
  ultimately show ?case by (simp add: pairs_of_def)
qed

lemma generate_keys:
  "set (path_method_keys (OpenAPIGenerator_generate api_resources title version)) =
     set (model_pairs api_resources)"
  "distinct (path_method_keys (OpenAPIGenerator_generate api_resources title version))"
proof -
  show "set (path_method_keys (OpenAPIGenerator_generate api_resources title version)) =
     set (model_pairs api_resources)"
    using pairs_of_generate_paths [of "[]" api_resources]
    by (simp add: path_method_keys_generate generate_paths_def pairs_of_def)
  show "distinct (path_method_keys (OpenAPIGenerator_generate api_resources title version))"
    by (simp add: path_method_keys_generate distinct_pairs_of dict_ok_generate_paths)
qed

lemma yaml_ok_dict_set:
  "yaml_ok (YDict d) \<Longrightarrow> yaml_ok v \<Longrightarrow> yaml_ok (YDict (dict_set k v d))"
  by (simp add: distinct_dict_set list_all_dict_set)

lemma yaml_ok_content_of: "yaml_ok (YDict (content_of media_types))"
proof -
  have "yaml_ok (YDict d) \<Longrightarrow>
      yaml_ok (YDict (foldl (\<lambda>d media_type. dict_set media_type schema_object d) d ms))"
    for d ms
  proof (induction ms arbitrary: d)
    case Nil
    then show ?case by simp
  next
    case (Cons m ms)
    have "yaml_ok (YDict (dict_set m schema_object d))"
      using Cons.prems by (rule yaml_ok_dict_set) (simp add: schema_object_def)
    then show ?case
      using Cons.IH by simp
  qed
  then show ?thesis
    unfolding content_of_def by simp
qed

lemma yaml_ok_parameter_entry: "yaml_ok (parameter_entry param)"
  by (simp add: parameter_entry_def yaml_of_in_def split: ann_value.splits)

lemma yaml_ok_operation_of: "yaml_ok (YDict (operation_of resource endpoint))"
  using yaml_ok_content_of [of "ep_produces endpoint"] yaml_ok_content_of [of "ep_consumes endpoint"]
  by (simp add: operation_of_def yaml_ok_parameter_entry list_all_iff del: yaml_ok.simps(4))
     (simp add: yaml_ok_parameter_entry list_all_iff)

lemma paths_ok_dict_set:
  "paths_ok paths \<Longrightarrow> yaml_ok (YDict ops) \<Longrightarrow> paths_ok (dict_set p ops paths)"
  unfolding paths_ok_def by (simp only: distinct_dict_set list_all_dict_set snd_conv simp_thms)

lemma paths_ok_lookup:
  "paths_ok paths \<Longrightarrow> yaml_ok (YDict (case map_of paths p of None \<Rightarrow> [] | Some ops \<Rightarrow> ops))"
proof (cases "map_of paths p")
  case None
  then show ?thesis by simp
next
  case (Some ops)
  assume ok: "paths_ok paths"
  from Some have "(p, ops) \<in> set paths" by (rule map_of_SomeD)
  with ok have "yaml_ok (YDict ops)"
    unfolding paths_ok_def list_all_iff by fastforce
  with Some show ?thesis by simp
qed

lemma paths_ok_add_operation:
  assumes ok: "paths_ok paths"
  shows "paths_ok (add_operation resource paths endpoint)"
proof -
  let ?p = "ep_path endpoint"
  let ?paths1 = "if map_of paths ?p = None then dict_set ?p [] paths else paths"
  let ?ops = "case map_of ?paths1 ?p of None \<Rightarrow> [] | Some ops \<Rightarrow> ops"
  have "yaml_ok (YDict [])" by simp
  with ok have "paths_ok (dict_set ?p [] paths)"
    by (rule paths_ok_dict_set)
  with ok have ok1: "paths_ok ?paths1"
    by simp
  then have "yaml_ok (YDict ?ops)"
    by (rule paths_ok_lookup)
  then have "yaml_ok (YDict (dict_set (str_lower (HttpMethod_value (ep_method endpoint)))
      (YDict (operation_of resource endpoint)) ?ops))"
    using yaml_ok_operation_of by (rule yaml_ok_dict_set)
  with ok1 have "paths_ok (dict_set ?p (dict_set (str_lower (HttpMethod_value (ep_method endpoint)))
      (YDict (operation_of resource endpoint)) ?ops) ?paths1)"
    by (rule paths_ok_dict_set)
  then show ?thesis
    by (simp add: add_operation_def Let_def)
qed

lemma paths_ok_generate_paths: "paths_ok (generate_paths rs)"
proof -
  have a: "paths_ok paths \<Longrightarrow> paths_ok (foldl (add_operation r) paths eps)" for paths r eps
    by (induction eps arbitrary: paths) (auto simp: paths_ok_add_operation)
  have b: "paths_ok paths \<Longrightarrow> paths_ok (foldl add_resource paths rs)" for paths
    by (induction rs arbitrary: paths) (auto simp: add_resource_def a)
  show ?thesis
    unfolding generate_paths_def by (rule b) (simp add: paths_ok_def)
qed

lemma yaml_ok_generate: "yaml_ok (OpenAPIGenerator_generate rs title version)"
proof -
  have "paths_ok paths \<Longrightarrow>
      yaml_ok (YDict (map (\<lambda>entry. (fst entry, YDict (snd entry))) paths))" for paths
    unfolding paths_ok_def by (induction paths) (auto simp: comp_def)
  then have "yaml_ok (YDict (map (\<lambda>entry. (fst entry, YDict (snd entry))) (generate_paths rs)))"
    using paths_ok_generate_paths by blast
  then show ?thesis
    by (simp add: OpenAPIGenerator_generate_def del: yaml_ok.simps(4))
       (simp)
qed

subsection \<open>The sample serializer\<close>

lemma dec_str_enc_str: "dec_str (enc_str s @ rest) = Some (s, rest)"
proof -
  have "takeWhile (\<lambda>c. c = CHR ''+'') (replicate n CHR ''+'' @ CHR ''.'' # u) = replicate n CHR ''+''"
    for n u
    by (induction n) simp_all
  moreover have "dropWhile (\<lambda>c. c = CHR ''+'') (replicate n CHR ''+'' @ CHR ''.'' # u) = CHR ''.'' # u"
    for n u
    by (induction n) simp_all
  ultimately show ?thesis
    by (simp add: dec_str_def enc_str_def)
qed

lemma parse_items_dump:
  assumes "\<And>x n rest. x \<in> set xs \<Longrightarrow> length (sample_dump x) < n \<Longrightarrow>
             parse n (sample_dump x @ rest) = Some (x, rest)"
    and "length (concat (map (\<lambda>x. ''i'' @ sample_dump x) xs)) < n"
  shows "parse_items n (concat (map (\<lambda>x. ''i'' @ sample_dump x) xs) @ ''e'' @ rest) =
     Some (xs, rest)"
  using assms
proof (induction xs arbitrary: n)
  case Nil
  then show ?case by (cases n) simp_all
next
  case (Cons x xs)
  from Cons.prems(2) obtain m where n: "n = Suc m" by (cases n) simp_all
  have a: "parse m (sample_dump x @ concat (map (\<lambda>x. ''i'' @ sample_dump x) xs) @ ''e'' @ rest) =
      Some (x, concat (map (\<lambda>x. ''i'' @ sample_dump x) xs) @ ''e'' @ rest)"
    using Cons.prems(2) n by (intro Cons.prems(1)) simp_all
  have b: "parse_items m (concat (map (\<lambda>x. ''i'' @ sample_dump x) xs) @ ''e'' @ rest) =
      Some (xs, rest)"
    using Cons.prems n by (intro Cons.IH) simp_all
  show ?case
    using a b by (simp add: n)
qed

lemma parse_entries_dump:
  assumes "\<And>e n rest. e \<in> set d \<Longrightarrow> length (sample_dump (snd e)) < n \<Longrightarrow>
             parse n (sample_dump (snd e) @ rest) = Some (snd e, rest)"
    and "length (concat (map (\<lambda>e. ''k'' @ enc_str (fst e) @ sample_dump (snd e)) d)) < n"
  shows "parse_entries n
       (concat (map (\<lambda>e. ''k'' @ enc_str (fst e) @ sample_dump (snd e)) d) @ ''e'' @ rest) =
     Some (d, rest)"
  using assms
proof (induction d arbitrary: n)
  case Nil
  then show ?case by (cases n) simp_all
next
  case (Cons e d)
  let ?more = "concat (map (\<lambda>e. ''k'' @ enc_str (fst e) @ sample_dump (snd e)) d) @ ''e'' @ rest"
  from Cons.prems(2) obtain m where n: "n = Suc m" by (cases n) simp_all
  have k: "dec_str (enc_str (fst e) @ sample_dump (snd e) @ ?more) =
      Some (fst e, sample_dump (snd e) @ ?more)"
    by (rule dec_str_enc_str)
  have a: "parse m (sample_dump (snd e) @ ?more) = Some (snd e, ?more)"
    using Cons.prems(2) n by (intro Cons.prems(1)) simp_all
  have b: "parse_entries m ?more = Some (d, rest)"
    using Cons.prems n by (intro Cons.IH) simp_all
  show ?case
    using k a b by (simp add: n)
qed

lemma parse_dump: "length (sample_dump doc) < n \<Longrightarrow> parse n (sample_dump doc @ rest) = Some (doc, rest)"
proof (induction doc arbitrary: n rest)
  case (YStr s)
  then obtain m where "n = Suc m" by (cases n) simp_all
  then show ?case by (simp add: dec_str_enc_str)
next
  case (YBool b)
  then obtain m where "n = Suc m" by (cases n) simp_all
  then show ?case by simp
next
  case (YList xs)
  from YList.prems obtain m where n: "n = Suc m" by (cases n) simp_all
  have "parse_items m (concat (map (\<lambda>x. ''i'' @ sample_dump x) xs) @ ''e'' @ rest) =
      Some (xs, rest)"
    using YList.prems n by (intro parse_items_dump YList.IH) simp_all
  then show ?case by (simp add: n)
next
  case (YDict d)
  from YDict.prems obtain m where n: "n = Suc m" by (cases n) simp_all
  have "parse_entries m
      (concat (map (\<lambda>e. ''k'' @ enc_str (fst e) @ sample_dump (snd e)) d) @ ''e'' @ rest) =
      Some (d, rest)"
  proof (rule parse_entries_dump)
    fix e n' rest'
    assume "e \<in> set d" and "length (sample_dump (snd e)) < n'"
    then show "parse n' (sample_dump (snd e) @ rest') = Some (snd e, rest')"
      by (intro YDict.IH [of e "snd e"]) (auto simp: snds.simps)
  next
    show "length (concat (map (\<lambda>e. ''k'' @ enc_str (fst e) @ sample_dump (snd e)) d)) < m"
      using YDict.prems n by simp
  qed
  then show ?case by (simp add: n)
qed

lemma sample_load_dump: "sample_load (sample_dump doc) = Some doc"
  using parse_dump [of doc "Suc (length (sample_dump doc))" "[]"]
  by (simp add: sample_load_def)

subsection \<open>The scan and the events of \<^verbatim>\<open>main\<close>\<close>

lemma analyze_loop_Cons:
  "analyze_loop (f # files) rs =
     (fst (analyze_java_file f) @ fst (analyze_loop files (rs @ kept (snd (analyze_java_file f)))),
      snd (analyze_loop files (rs @ kept (snd (analyze_java_file f)))))"
  by (simp add: split_beta Let_def kept_def split: option.splits)

lemma analyze_loop_snd: "snd (analyze_loop files rs) = rs @ discovered files"
proof (induction files arbitrary: rs)
  case Nil
  then show ?case by (simp add: discovered_def)
next
  case (Cons f files)
  let ?new = "kept (snd (analyze_java_file f))"
  have "snd (analyze_loop (f # files) rs) = snd (analyze_loop files (rs @ ?new))"
    by (simp only: analyze_loop_Cons snd_conv)
  also have "\<dots> = (rs @ ?new) @ discovered files"
    by (rule Cons.IH)
  finally have a: "snd (analyze_loop (f # files) rs) = rs @ ?new @ discovered files"
    by simp
  have "discovered (f # files) = snd (analyze_loop files ([] @ ?new))"
    unfolding discovered_def by (simp only: analyze_loop_Cons snd_conv)
  also have "\<dots> = ([] @ ?new) @ discovered files"
    by (rule Cons.IH)
  finally have "discovered (f # files) = ?new @ discovered files"
    by simp
  with a show ?case by simp
qed

lemma analyze_loop_fst: "fst (analyze_loop files rs) = fst (analyze_loop files [])"
proof (induction files arbitrary: rs)
  case Nil
  then show ?case by simp
next
  case (Cons f files)
  let ?new = "kept (snd (analyze_java_file f))"
  have a: "fst (analyze_loop files (rs @ ?new)) = fst (analyze_loop files [])"
    by (rule Cons.IH)
  have b: "fst (analyze_loop files ([] @ ?new)) = fst (analyze_loop files [])"
    by (rule Cons.IH)
  show ?case
    by (simp only: analyze_loop_Cons fst_conv a b)
qed

lemma analyze_result:
  "analyze fs self =
     (fst (analyze_loop (find_java_files fs self) []),
      self\<lparr>resources := resources self @ discovered (find_java_files fs self)\<rparr>,
      resources self @ discovered (find_java_files fs self))"
  unfolding analyze_def
  by (simp add: split_beta analyze_loop_snd analyze_loop_fst [of _ "resources self"])

lemma find_java_files_resources:
  "find_java_files fs (self\<lparr>resources := rs\<rparr>) = find_java_files fs self"
  by (simp add: find_java_files_def)

lemma main_makedirs_fails:
  "os_makedirs os output_dir = Some e \<Longrightarrow> main os fs rp output_dir = ([], Some e)"
  by (simp add: main_def)

lemma main_without_resources:
  "os_makedirs os output_dir = None \<Longrightarrow> found_resources fs rp = [] \<Longrightarrow>
   main os fs rp output_dir =
     ([MakeDirs output_dir, Print (''Analyzing repository: '' @ rp)] @
      map Print (fst (analyze fs (JaxRSAnalyzer_init rp))) @
      [Print ''No JAX-RS APIs found in the repository''], None)"
  by (simp add: main_def found_resources_def split_beta Let_def)

lemma no_write_in_prints: "filter is_write (map Print ls) = []"
  by (induction ls) simp_all

lemma no_write_in_resource_lines: "filter is_write (map resource_line rs) = []"
  by (induction rs) (simp_all add: resource_line_def)

lemma main_writes_nothing:
  "found_resources fs rp = [] \<Longrightarrow> filter is_write (fst (main os fs rp output_dir)) = []"
proof (cases "os_makedirs os output_dir")
  case None
  assume "found_resources fs rp = []"
  with None show ?thesis
    by (simp only: main_without_resources fst_conv filter_append no_write_in_prints filter.simps
          is_write.simps if_False append_Nil)
next
  case (Some e)
  then show ?thesis
    by (simp add: main_makedirs_fails)
qed

lemma dump_to_file_ok:
  "open_w os p = None \<Longrightarrow> dump_error os p = None \<Longrightarrow>
   dump_to_file os doc p = ([WriteYaml p doc], None)"
  by (simp add: dump_to_file_def)

lemma dump_to_file_writes:
  "WriteYaml p d \<in> set (fst (dump_to_file os doc q)) \<Longrightarrow> p = q \<and> d = doc"
  by (auto simp: dump_to_file_def split: option.splits)

lemma main_writes_both:
  assumes "os_makedirs os output_dir = None" and "found_resources fs rp \<noteq> []"
    and "open_w os (os_path_join output_dir ''openapi.yaml'') = None"
    and "dump_error os (os_path_join output_dir ''openapi.yaml'') = None"
    and "open_w os (os_path_join output_dir ''catalog-info.yaml'') = None"
    and "dump_error os (os_path_join output_dir ''catalog-info.yaml'') = None"
  shows "filter is_write (fst (main os fs rp output_dir)) =
     [WriteYaml (os_path_join output_dir ''openapi.yaml'')
        (OpenAPIGenerator_generate (found_resources fs rp) ''My JAX-RS API'' ''1.0.0''),
      WriteYaml (os_path_join output_dir ''catalog-info.yaml'')
        (BackstageGenerator_generate (found_resources fs rp) ''My JAX-RS API'' ''openapi.yaml'')]"
    and "snd (main os fs rp output_dir) = None"
  using assms
  by (simp_all add: main_def found_resources_def split_beta Let_def dump_to_file_ok
        OpenAPIGenerator_save_to_file_def BackstageGenerator_save_to_file_def
        no_write_in_prints no_write_in_resource_lines)

lemma main_written_documents:
  assumes "WriteYaml p d \<in> set (fst (main os fs rp output_dir))"
  shows "found_resources fs rp \<noteq> [] \<and>
     ((p, d) = (os_path_join output_dir ''openapi.yaml'',
                OpenAPIGenerator_generate (found_resources fs rp) ''My JAX-RS API'' ''1.0.0'') \<or>
      (p, d) = (os_path_join output_dir ''catalog-info.yaml'',
                BackstageGenerator_generate (found_resources fs rp) ''My JAX-RS API''
                  ''openapi.yaml''))"
proof (cases "os_makedirs os output_dir")
  case (Some e)
  with assms show ?thesis
    by (simp add: main_makedirs_fails)
next
  case None
  show ?thesis
  proof (cases "found_resources fs rp = []")
    case True
    with None assms show ?thesis
      by (auto simp: main_without_resources)
  next
    case False
    with None assms show ?thesis
      by (auto simp: main_def found_resources_def split_beta Let_def
            OpenAPIGenerator_save_to_file_def BackstageGenerator_save_to_file_def
            resource_line_def
          split: option.splits dest: dump_to_file_writes)
  qed
qed

subsection \<open>How a pattern matches\<close>

lemma takesD: "takes r u s h \<Longrightarrow> k (s, h g) = Some z \<Longrightarrow> rmatch r k (u @ s, g) = Some z"
  unfolding takes_def by blast

lemma takesI:
  "(\<And>k g z. k (s, h g) = Some z \<Longrightarrow> rmatch r k (u @ s, g) = Some z) \<Longrightarrow> takes r u s h"
  unfolding takes_def by blast

lemma rep_takesD:
  "rep_takes r u s h \<Longrightarrow> length (u @ s) \<le> n \<Longrightarrow> k (s, h g) = Some z \<Longrightarrow>
   rep (rmatch r) n k (u @ s, g) = Some z"
  unfolding rep_takes_def by blast

lemma rep_takesI:
  "(\<And>n k g z. length (u @ s) \<le> n \<Longrightarrow> k (s, h g) = Some z \<Longrightarrow>
      rep (rmatch r) n k (u @ s, g) = Some z) \<Longrightarrow> rep_takes r u s h"
  unfolding rep_takes_def by blast

lemma failsD: "fails r s \<Longrightarrow> rmatch r k (s, g) = None"
  unfolding fails_def by blast

lemma takes_Epsilon: "takes Epsilon [] s (\<lambda>g. g)"
  by (rule takesI) simp

lemma takes_Sym: "P c \<Longrightarrow> takes (Sym P) [c] s (\<lambda>g. g)"
  by (rule takesI) simp

lemma takes_Cat:
  assumes "takes r1 u1 (u2 @ s) h1" and "takes r2 u2 s h2"
  shows "takes (Cat r1 r2) (u1 @ u2) s (\<lambda>g. h2 (h1 g))"
proof (rule takesI)
  fix k :: cont and g z
  assume k: "k (s, h2 (h1 g)) = Some z"
  then have "rmatch r2 k (u2 @ s, h1 g) = Some z"
    by (rule takesD [OF assms(2)])
  then have "rmatch r1 (rmatch r2 k) (u1 @ u2 @ s, g) = Some z"
    by (rule takesD [OF assms(1)])
  then show "rmatch (Cat r1 r2) k ((u1 @ u2) @ s, g) = Some z"
    by simp
qed

lemma takes_Alt1: "takes r1 u s h \<Longrightarrow> takes (Alt r1 r2) u s h"
  by (rule takesI) (simp add: takesD)

lemma takes_Alt2: "fails r1 (u @ s) \<Longrightarrow> takes r2 u s h \<Longrightarrow> takes (Alt r1 r2) u s h"
  by (rule takesI) (simp add: takesD failsD)

lemma takes_Cap:
  assumes "takes r u s h"
  shows "takes (Cap i r) u s (\<lambda>g. (h g)[i := Some u])"
proof (rule takesI)
  fix k :: cont and g z
  assume k: "k (s, (h g)[i := Some u]) = Some z"
  let ?k = "\<lambda>y. k (fst y, (snd y)[i := Some (take (length (fst (u @ s, g)) - length (fst y)) (fst (u @ s, g)))])"
  have "?k (s, h g) = Some z"
    using k by simp
  then have "rmatch r ?k (u @ s, g) = Some z"
    by (rule takesD [OF assms])
  then show "rmatch (Cap i r) k (u @ s, g) = Some z"
    by simp
qed

lemma rep_takes_Nil: "fails r s \<Longrightarrow> rep_takes r [] s (\<lambda>g. g)"
proof (rule rep_takesI)
  fix n and k :: cont and g z
  assume f: "fails r s" and k: "k (s, g) = Some z"
  show "rep (rmatch r) n k ([] @ s, g) = Some z"
    using k by (cases n) (simp_all add: failsD [OF f])
qed

lemma rep_takes_Cons:
  assumes "takes r u1 (u2 @ s) h1" and "u1 \<noteq> []" and "rep_takes r u2 s h2"
  shows "rep_takes r (u1 @ u2) s (\<lambda>g. h2 (h1 g))"
proof (rule rep_takesI)
  fix n and k :: cont and g z
  assume n: "length ((u1 @ u2) @ s) \<le> n" and k: "k (s, h2 (h1 g)) = Some z"
  from n assms(2) obtain n' where n': "n = Suc n'" and le: "length (u2 @ s) \<le> n'"
    by (cases n) (auto simp: neq_Nil_conv)
  let ?x = "(u1 @ u2 @ s, g)"
  let ?k = "\<lambda>y. if length (fst y) < length (fst ?x) then rep (rmatch r) n' k y else None"
  have "rep (rmatch r) n' k (u2 @ s, h1 g) = Some z"
    using assms(3) le k by (rule rep_takesD)
  then have "?k (u2 @ s, h1 g) = Some z"
    using assms(2) by simp
  then have "rmatch r ?k ?x = Some z"
    by (rule takesD [OF assms(1)])
  then show "rep (rmatch r) n k ((u1 @ u2) @ s, g) = Some z"
    by (simp add: n')
qed

lemma takes_Rep: "rep_takes r u s h \<Longrightarrow> takes (Rep r) u s h"
  by (rule takesI) (simp add: rep_takesD)

lemma fails_Sym: "stops P s \<Longrightarrow> fails (Sym P) s"
  by (auto simp: fails_def stops_def split: list.splits)

lemma fails_Cat: "fails r1 s \<Longrightarrow> fails (Cat r1 r2) s"
  by (simp add: fails_def)

lemma fails_Cap: "fails r s \<Longrightarrow> fails (Cap i r) s"
  by (simp add: fails_def)

lemma rep_takes_run: "list_all P w \<Longrightarrow> stops P s \<Longrightarrow> rep_takes (Sym P) w s (\<lambda>g. g)"
proof (induction w)
  case Nil
  then show ?case by (simp add: rep_takes_Nil fails_Sym)
next
  case (Cons c w)
  then have "takes (Sym P) [c] (w @ s) (\<lambda>g. g)" and "rep_takes (Sym P) w s (\<lambda>g. g)"
    by (simp_all add: takes_Sym)
  then have "rep_takes (Sym P) ([c] @ w) s (\<lambda>g. g)"
    by (intro rep_takes_Cons) simp_all
  then show ?case by simp
qed

lemma takes_star_run: "list_all P w \<Longrightarrow> stops P s \<Longrightarrow> takes (rstar (Sym P)) w s (\<lambda>g. g)"
  by (simp add: rstar_def takes_Rep rep_takes_run)

lemma takes_plus_run:
  "w \<noteq> [] \<Longrightarrow> list_all P w \<Longrightarrow> stops P s \<Longrightarrow> takes (rplus (Sym P)) w s (\<lambda>g. g)"
proof -
  assume "w \<noteq> []" and w: "list_all P w" and s: "stops P s"
  then obtain c w' where cw: "w = c # w'" by (auto simp: neq_Nil_conv)
  have "takes (Sym P) [c] (w' @ s) (\<lambda>g. g)"
    using w cw by (simp add: takes_Sym)
  moreover have "takes (Rep (Sym P)) w' s (\<lambda>g. g)"
    using w cw s by (simp add: takes_Rep rep_takes_run)
  ultimately have "takes (Cat (Sym P) (Rep (Sym P))) ([c] @ w') s (\<lambda>g. g)"
    by (rule takes_Cat)
  then show ?thesis by (simp add: rplus_def cw)
qed

lemma takes_lit: "takes (rlit u) u s (\<lambda>g. g)"
proof (induction u)
  case Nil
  then show ?case by (simp add: takes_Epsilon)
next
  case (Cons c u)
  have "takes (Sym (\<lambda>x. x = c)) [c] (u @ s) (\<lambda>g. g)"
    by (simp add: takes_Sym)
  then have "takes (Cat (Sym (\<lambda>x. x = c)) (rlit u)) ([c] @ u) s (\<lambda>g. g)"
    using Cons.IH by (rule takes_Cat)
  then show ?case by simp
qed

lemma takes_chr: "takes (rchr c) [c] s (\<lambda>g. g)"
  by (simp add: rchr_def takes_Sym)

lemma takes_seq_Nil: "takes (rseq []) [] s (\<lambda>g. g)"
  by (simp add: takes_Epsilon)

lemma takes_seq_Cons:
  "takes r u1 (u2 @ s) h1 \<Longrightarrow> takes (rseq rs) u2 s h2 \<Longrightarrow>
   takes (rseq (r # rs)) (u1 @ u2) s (\<lambda>g. h2 (h1 g))"
  by (simp add: takes_Cat)

lemma takes_match_at:
  assumes "takes r u s h"
  shows "match_at r n off (u @ s) =
     Some \<lparr>m_start = off, m_end = off + length u,
           m_groups = (h (replicate (Suc n) None))[0 := Some u]\<rparr>"
proof -
  have "takes (Cap 0 r) u s (\<lambda>g. (h g)[0 := Some u])"
    using assms by (rule takes_Cap)
  then have "rmatch (Cap 0 r) Some (u @ s, replicate (Suc n) None) =
      Some (s, (h (replicate (Suc n) None))[0 := Some u])"
    by (rule takesD) simp
  then show ?thesis
    by (simp add: match_at_def del: rmatch.simps)
qed

subsection \<open>Annotation blocks and signatures\<close>

lemma method_pattern_split:
  "method_pattern = Cat (rstar (Cap 1 annotation_pattern)) signature_pattern"
  by (simp add: method_pattern_def annotation_pattern_def signature_pattern_def)

lemma is_space_not_word: "is_space c \<Longrightarrow> \<not> is_word c"
  by (auto simp: is_space_def is_word_def Let_def)

lemma is_word_not_space: "is_word c \<Longrightarrow> \<not> is_space c"
  using is_space_not_word by blast

lemma stops_Nil [simp]: "stops P []"
  by (simp add: stops_def)

lemma stops_Cons [simp]: "stops P (c # s) = (\<not> P c)"
  by (simp add: stops_def)

lemma stops_run:
  "list_all Q u \<Longrightarrow> (\<And>c. Q c \<Longrightarrow> \<not> P c) \<Longrightarrow> stops P s \<Longrightarrow> stops P (u @ s)"
  by (cases u) simp_all

lemma stops_run1:
  "u \<noteq> [] \<Longrightarrow> list_all Q u \<Longrightarrow> (\<And>c. Q c \<Longrightarrow> \<not> P c) \<Longrightarrow> stops P (u @ s)"
  by (cases u) simp_all

lemma takes_seq_step:
  "takes r u1 (u2 @ s) (\<lambda>g. g) \<Longrightarrow> takes (rseq rs) u2 s h \<Longrightarrow> takes (rseq (r # rs)) (u1 @ u2) s h"
  using takes_Cat [of r u1 u2 s "\<lambda>g. g" "rseq rs" h] by simp

lemma takes_seq_cap:
  "takes r u1 (u2 @ s) h \<Longrightarrow> takes (rseq rs) u2 s (\<lambda>g. g) \<Longrightarrow> takes (rseq (r # rs)) (u1 @ u2) s h"
  using takes_Cat [of r u1 u2 s h "rseq rs" "\<lambda>g. g"] by simp

lemma takes_args:
  assumes "CHR '')'' \<notin> set a"
  shows "takes (rseq [rchr CHR ''('', rstar (none_of '')''), rchr CHR '')'']) (''('' @ a @ '')'') s (\<lambda>g. g)"
proof -
  have 3: "takes (rseq [rchr CHR '')'']) ('')'' @ []) s (\<lambda>g. g)"
    by (intro takes_seq_step takes_seq_Nil) (simp add: takes_chr)
  have "takes (rstar (none_of '')'')) a (('')'' @ []) @ s) (\<lambda>g. g)"
    unfolding none_of_def using assms
    by (intro takes_star_run) (auto simp: list_all_iff)
  then have 2: "takes (rseq [rstar (none_of '')''), rchr CHR '')'']) (a @ '')'' @ []) s (\<lambda>g. g)"
    using 3 by (rule takes_seq_step)
  have "takes (rchr CHR ''('') ''('' ((a @ '')'' @ []) @ s) (\<lambda>g. g)"
    by (rule takes_chr)
  then have "takes (rseq [rchr CHR ''('', rstar (none_of '')''), rchr CHR '')''])
      (''('' @ a @ '')'' @ []) s (\<lambda>g. g)"
    using 2 by (rule takes_seq_step)
  then show ?thesis by simp
qed

lemma takes_annotation:
  assumes ok: "ann_ok b" and fo: "ann_follow b s"
  shows "takes annotation_pattern (ann_text b) s (\<lambda>g. g)"
proof (cases b)
  case (Annotation w sp args tr)
  from ok Annotation have w: "w \<noteq> []" "list_all is_word w" and sp: "list_all is_space sp"
    and tr: "list_all is_space tr" by simp_all
  from fo have st: "stops is_space s" by (simp add: ann_follow_def)
  show ?thesis
  proof (cases args)
    case None
    from fo Annotation None have par: "stops (\<lambda>c. c = CHR ''('') s"
      and wd: "sp @ tr = [] \<longrightarrow> stops is_word s" by (simp_all add: ann_follow_def)
    have 5: "takes (rseq [rstar re_s]) ([] @ []) s (\<lambda>g. g)"
      unfolding re_s_def using st
      by (intro takes_seq_step takes_seq_Nil takes_star_run) simp_all
    have "fails (rseq [rchr CHR ''('', rstar (none_of '')''), rchr CHR '')'']) ([] @ ([] @ []) @ s)"
      using par by (simp add: rchr_def fails_Cat fails_Sym)
    then have "takes (ropt (rseq [rchr CHR ''('', rstar (none_of '')''), rchr CHR '')'']))
        [] (([] @ []) @ s) (\<lambda>g. g)"
      unfolding ropt_def by (rule takes_Alt2) (rule takes_Epsilon)
    then have 4: "takes (rseq [ropt (rseq [rchr CHR ''('', rstar (none_of '')''), rchr CHR '')'']),
        rstar re_s]) ([] @ [] @ []) s (\<lambda>g. g)"
      using 5 by (rule takes_seq_step)
    have "takes (rstar re_s) (sp @ tr) (([] @ [] @ []) @ s) (\<lambda>g. g)"
      unfolding re_s_def using sp tr st
      by (intro takes_star_run) simp_all
    then have 3: "takes (rseq [rstar re_s,
        ropt (rseq [rchr CHR ''('', rstar (none_of '')''), rchr CHR '')'']),
        rstar re_s]) ((sp @ tr) @ [] @ [] @ []) s (\<lambda>g. g)"
      using 4 by (rule takes_seq_step)
    have "stops is_word ((sp @ tr) @ s)"
    proof (cases "sp @ tr = []")
      case True
      with wd show ?thesis by simp
    next
      case False
      moreover have "list_all is_space (sp @ tr)" using sp tr by simp
      ultimately show ?thesis
        by (rule stops_run1) (rule is_space_not_word)
    qed
    then have "takes (rplus re_w) w (((sp @ tr) @ [] @ [] @ []) @ s) (\<lambda>g. g)"
      unfolding re_w_def using w by (intro takes_plus_run) simp_all
    then have 2: "takes (rseq [rplus re_w, rstar re_s,
        ropt (rseq [rchr CHR ''('', rstar (none_of '')''), rchr CHR '')'']),
        rstar re_s]) (w @ (sp @ tr) @ [] @ [] @ []) s (\<lambda>g. g)"
      using 3 by (rule takes_seq_step)
    have "takes (rchr CHR ''@'') ''@'' ((w @ (sp @ tr) @ [] @ [] @ []) @ s) (\<lambda>g. g)"
      by (rule takes_chr)
    then have "takes annotation_pattern (''@'' @ w @ (sp @ tr) @ [] @ [] @ []) s (\<lambda>g. g)"
      unfolding annotation_pattern_def using 2 by (rule takes_seq_step)
    then show ?thesis using Annotation None by simp
  next
    case (Some a)
    from ok Annotation Some have a: "CHR '')'' \<notin> set a" by simp
    have 5: "takes (rseq [rstar re_s]) (tr @ []) s (\<lambda>g. g)"
      unfolding re_s_def using st tr
      by (intro takes_seq_step takes_seq_Nil takes_star_run) simp_all
    have "takes (rseq [rchr CHR ''('', rstar (none_of '')''), rchr CHR '')''])
        (''('' @ a @ '')'') ((tr @ []) @ s) (\<lambda>g. g)"
      using a by (rule takes_args)
    then have "takes (ropt (rseq [rchr CHR ''('', rstar (none_of '')''), rchr CHR '')'']))
        (''('' @ a @ '')'') ((tr @ []) @ s) (\<lambda>g. g)"
      unfolding ropt_def by (rule takes_Alt1)
    then have 4: "takes (rseq [ropt (rseq [rchr CHR ''('', rstar (none_of '')''), rchr CHR '')'']),
        rstar re_s]) ((''('' @ a @ '')'') @ tr @ []) s (\<lambda>g. g)"
      using 5 by (rule takes_seq_step)
    have "takes (rstar re_s) sp (((''('' @ a @ '')'') @ tr @ []) @ s) (\<lambda>g. g)"
      unfolding re_s_def using sp
      by (intro takes_star_run) (simp_all add: is_space_def)
    then have 3: "takes (rseq [rstar re_s,
        ropt (rseq [rchr CHR ''('', rstar (none_of '')''), rchr CHR '')'']),
        rstar re_s]) (sp @ (''('' @ a @ '')'') @ tr @ []) s (\<lambda>g. g)"
      using 4 by (rule takes_seq_step)
    have "stops is_word (''('' @ a @ '')'' @ tr @ s)"
      by (simp add: is_word_def)
    then have "stops is_word (sp @ ''('' @ a @ '')'' @ tr @ s)"
      using sp by (cases sp) (simp_all add: is_space_not_word)
    then have "takes (rplus re_w) w ((sp @ (''('' @ a @ '')'') @ tr @ []) @ s) (\<lambda>g. g)"
      unfolding re_w_def using w by (intro takes_plus_run) simp_all
    then have 2: "takes (rseq [rplus re_w, rstar re_s,
        ropt (rseq [rchr CHR ''('', rstar (none_of '')''), rchr CHR '')'']),
        rstar re_s]) (w @ sp @ (''('' @ a @ '')'') @ tr @ []) s (\<lambda>g. g)"
      using 3 by (rule takes_seq_step)
    have "takes (rchr CHR ''@'') ''@'' ((w @ sp @ (''('' @ a @ '')'') @ tr @ []) @ s) (\<lambda>g. g)"
      by (rule takes_chr)
    then have "takes annotation_pattern (''@'' @ w @ sp @ (''('' @ a @ '')'') @ tr @ []) s (\<lambda>g. g)"
      unfolding annotation_pattern_def using 2 by (rule takes_seq_step)
    then show ?thesis using Annotation Some by simp
  qed
qed

lemma ann_text_at: "ann_text b = CHR ''@'' # tl (ann_text b)"
  by (cases b) (case_tac x3; simp)

lemma ann_follow_at: "ann_follow b (ann_text b' @ s)"
  by (subst ann_text_at) (simp add: ann_follow_def is_space_def is_word_def)

lemma anns_text_Cons: "anns_text (b # bs) = ann_text b @ anns_text bs"
  by (simp add: anns_text_def)

lemma ann_text_nonempty: "ann_text b \<noteq> []"
  by (subst ann_text_at) simp

lemma rep_takes_annotations:
  assumes "list_all ann_ok bs"
    and "bs \<noteq> [] \<Longrightarrow> ann_follow (last bs) s"
    and "stops (\<lambda>c. c = CHR ''@'') s"
  shows "rep_takes (Cap 1 annotation_pattern) (anns_text bs) s
           (\<lambda>g. if bs = [] then g else g[1 := Some (ann_text (last bs))])"
  using assms
proof (induction bs)
  case Nil
  have "fails (Cap 1 annotation_pattern) s"
    unfolding annotation_pattern_def rchr_def using Nil.prems(3)
    by (simp add: fails_Cap fails_Cat fails_Sym)
  then show ?case
    by (simp add: anns_text_def rep_takes_Nil)
next
  case (Cons b bs)
  have fo: "ann_follow b (anns_text bs @ s)"
  proof (cases bs)
    case Nil
    with Cons.prems(2) show ?thesis by (simp add: anns_text_def)
  next
    case (Cons b' bs')
    then show ?thesis by (simp add: anns_text_Cons ann_follow_at)
  qed
  from Cons.prems(1) have "ann_ok b" by simp
  then have "takes annotation_pattern (ann_text b) (anns_text bs @ s) (\<lambda>g. g)"
    using fo by (rule takes_annotation)
  then have 1: "takes (Cap 1 annotation_pattern) (ann_text b) (anns_text bs @ s)
      (\<lambda>g. g[1 := Some (ann_text b)])"
    by (rule takes_Cap)
  have 2: "rep_takes (Cap 1 annotation_pattern) (anns_text bs) s
           (\<lambda>g. if bs = [] then g else g[1 := Some (ann_text (last bs))])"
    using Cons.prems by (intro Cons.IH) auto
  have 3: "rep_takes (Cap 1 annotation_pattern) (ann_text b @ anns_text bs) s
      (\<lambda>g. (if bs = [] then (g[1 := Some (ann_text b)])
            else (g[1 := Some (ann_text b)])[1 := Some (ann_text (last bs))]))"
    by (rule rep_takes_Cons [OF 1 ann_text_nonempty 2])
  show ?case
  proof (cases "bs = []")
    case True
    with 3 show ?thesis by (simp add: anns_text_Cons)
  next
    case False
    with 3 show ?thesis by (simp add: anns_text_Cons)
  qed
qed

lemma takes_signature:
  assumes "sig_ok sg"
  shows "takes signature_pattern (sig_text sg) s (\<lambda>g. g[2 := Some (s_name sg)])"
proof (cases sg)
  case (Signature sp1 ty sp2 nm sp3 args)
  from assms Signature have sp1: "sp1 \<noteq> []" "list_all is_space sp1"
    and ty: "ty \<noteq> []" "list_all is_word ty"
    and sp2: "sp2 \<noteq> []" "list_all is_space sp2"
    and nm: "nm \<noteq> []" "list_all is_word nm"
    and sp3: "list_all is_space sp3" and args: "CHR '')'' \<notin> set args"
    by simp_all
  let ?t10 = "'')'' @ []"
  let ?t9 = "args @ ?t10"
  let ?t8 = "''('' @ ?t9"
  let ?t7 = "sp3 @ ?t8"
  let ?t6 = "nm @ ?t7"
  let ?t5 = "sp2 @ ?t6"
  let ?t4 = "ty @ ?t5"
  let ?t3 = "sp1 @ ?t4"
  let ?t2 = "''public'' @ ?t3"
  have 10: "takes (rseq [rchr CHR '')'']) ?t10 s (\<lambda>g. g)"
    by (intro takes_seq_step takes_seq_Nil) (simp add: takes_chr)
  have "takes (rstar (none_of '')'')) args (?t10 @ s) (\<lambda>g. g)"
    unfolding none_of_def using args
    by (intro takes_star_run) (auto simp: list_all_iff)
  then have 9: "takes (rseq [rstar (none_of '')''), rchr CHR '')'']) ?t9 s (\<lambda>g. g)"
    using 10 by (rule takes_seq_step)
  have "takes (rchr CHR ''('') ''('' (?t9 @ s) (\<lambda>g. g)"
    by (rule takes_chr)
  then have 8: "takes (rseq [rchr CHR ''('', rstar (none_of '')''), rchr CHR '')'']) ?t8 s (\<lambda>g. g)"
    using 9 by (rule takes_seq_step)
  have "takes (rstar re_s) sp3 (?t8 @ s) (\<lambda>g. g)"
    unfolding re_s_def using sp3
    by (intro takes_star_run) (simp_all add: is_space_def)
  then have 7: "takes (rseq [rstar re_s, rchr CHR ''('', rstar (none_of '')''), rchr CHR '')''])
      ?t7 s (\<lambda>g. g)"
    using 8 by (rule takes_seq_step)
  have "stops is_word (?t7 @ s)"
    using sp3 by (cases sp3) (simp add: is_word_def, simp add: is_space_not_word)
  then have "takes (rplus re_w) nm (?t7 @ s) (\<lambda>g. g)"
    unfolding re_w_def using nm by (intro takes_plus_run) simp_all
  then have "takes (Cap 2 (rplus re_w)) nm (?t7 @ s) (\<lambda>g. g[2 := Some nm])"
    by (rule takes_Cap)
  then have 6: "takes (rseq [Cap 2 (rplus re_w), rstar re_s, rchr CHR ''('',
      rstar (none_of '')''), rchr CHR '')'']) ?t6 s (\<lambda>g. g[2 := Some nm])"
    using 7 by (rule takes_seq_cap)
  have "stops is_space (?t6 @ s)"
    using nm by (cases nm) (simp_all add: is_word_not_space)
  then have "takes (rplus re_s) sp2 (?t6 @ s) (\<lambda>g. g)"
    unfolding re_s_def using sp2 by (intro takes_plus_run) simp_all
  then have 5: "takes (rseq [rplus re_s, Cap 2 (rplus re_w), rstar re_s, rchr CHR ''('',
      rstar (none_of '')''), rchr CHR '')'']) ?t5 s (\<lambda>g. g[2 := Some nm])"
    using 6 by (rule takes_seq_step)
  have "stops is_word (?t5 @ s)"
    using sp2 by (cases sp2) (simp_all add: is_space_not_word)
  then have "takes (rplus re_w) ty (?t5 @ s) (\<lambda>g. g)"
    unfolding re_w_def using ty by (intro takes_plus_run) simp_all
  then have 4: "takes (rseq [rplus re_w, rplus re_s, Cap 2 (rplus re_w), rstar re_s,
      rchr CHR ''('', rstar (none_of '')''), rchr CHR '')'']) ?t4 s (\<lambda>g. g[2 := Some nm])"
    using 5 by (rule takes_seq_step)
  have "stops is_space (?t4 @ s)"
    using ty by (cases ty) (simp_all add: is_word_not_space)
  then have "takes (rplus re_s) sp1 (?t4 @ s) (\<lambda>g. g)"
    unfolding re_s_def using sp1 by (intro takes_plus_run) simp_all
  then have 3: "takes (rseq [rplus re_s, rplus re_w, rplus re_s, Cap 2 (rplus re_w), rstar re_s,
      rchr CHR ''('', rstar (none_of '')''), rchr CHR '')'']) ?t3 s (\<lambda>g. g[2 := Some nm])"
    using 4 by (rule takes_seq_step)
  have "takes (rlit ''public'') ''public'' (?t3 @ s) (\<lambda>g. g)"
    by (rule takes_lit)
  then have 2: "takes (rseq [rlit ''public'', rplus re_s, rplus re_w, rplus re_s,
      Cap 2 (rplus re_w), rstar re_s, rchr CHR ''('', rstar (none_of '')''), rchr CHR '')''])
      ?t2 s (\<lambda>g. g[2 := Some nm])"
    using 3 by (rule takes_seq_step)
  have "takes (rstar re_s) [] (?t2 @ s) (\<lambda>g. g)"
    unfolding re_s_def by (intro takes_star_run) (simp_all add: is_space_def)
  then have "takes signature_pattern ([] @ ?t2) s (\<lambda>g. g[2 := Some nm])"
    unfolding signature_pattern_def using 2 by (rule takes_seq_step)
  then show ?thesis using Signature by simp
qed

lemma sig_text_public: "sig_text sg = ''public'' @ drop 6 (sig_text sg)"
  by (cases sg) simp

lemma takes_method:
  assumes bs: "list_all ann_ok bs" and cl: "bs \<noteq> [] \<Longrightarrow> ann_closed (last bs)"
    and sg: "sig_ok sg"
  shows "takes method_pattern (anns_text bs @ sig_text sg) s
           (\<lambda>g. (if bs = [] then g else g[1 := Some (ann_text (last bs))])[2 := Some (s_name sg)])"
proof -
  have fo: "ann_follow (last bs) (sig_text sg @ s)" if "bs \<noteq> []"
  proof -
    from cl that have "ann_closed (last bs)" .
    then show ?thesis
      by (subst sig_text_public, cases "last bs")
         (auto simp: ann_follow_def is_space_def)
  qed
  have "stops (\<lambda>c. c = CHR ''@'') (sig_text sg @ s)"
    by (subst sig_text_public) simp
  with bs fo have "rep_takes (Cap 1 annotation_pattern) (anns_text bs) (sig_text sg @ s)
           (\<lambda>g. if bs = [] then g else g[1 := Some (ann_text (last bs))])"
    by (intro rep_takes_annotations)
  then have "takes (rstar (Cap 1 annotation_pattern)) (anns_text bs) (sig_text sg @ s)
           (\<lambda>g. if bs = [] then g else g[1 := Some (ann_text (last bs))])"
    unfolding rstar_def by (rule takes_Rep)
  moreover have "takes signature_pattern (sig_text sg) s (\<lambda>g. g[2 := Some (s_name sg)])"
    using sg by (rule takes_signature)
  ultimately show ?thesis
    unfolding method_pattern_split by (rule takes_Cat)
qed

lemma match_at_method:
  assumes "list_all ann_ok bs" and "bs \<noteq> [] \<Longrightarrow> ann_closed (last bs)" and "sig_ok sg"
  shows "match_at method_pattern 2 off (anns_text bs @ sig_text sg @ s) =
     Some \<lparr>m_start = off, m_end = off + length (anns_text bs @ sig_text sg),
           m_groups = [Some (anns_text bs @ sig_text sg),
                       if bs = [] then None else Some (ann_text (last bs)),
                       Some (s_name sg)]\<rparr>"
proof -
  have "takes method_pattern (anns_text bs @ sig_text sg) s
           (\<lambda>g. (if bs = [] then g else g[1 := Some (ann_text (last bs))])[2 := Some (s_name sg)])"
    using assms by (rule takes_method)
  then have "match_at method_pattern 2 off ((anns_text bs @ sig_text sg) @ s) =
     Some \<lparr>m_start = off, m_end = off + length (anns_text bs @ sig_text sg),
           m_groups = ((if bs = [] then replicate (Suc 2) None
                        else (replicate (Suc 2) None)[1 := Some (ann_text (last bs))])
                       [2 := Some (s_name sg)])[0 := Some (anns_text bs @ sig_text sg)]\<rparr>"
    by (rule takes_match_at)
  then show ?thesis
    by (simp add: numeral_3_eq_3 numeral_2_eq_2)
qed

subsection \<open>Where matches start\<close>

lemma match_at_shift:
  "match_at r n (off + d) s = map_option (shift_match d) (match_at r n off s)"
  by (simp add: match_at_def shift_match_def split: option.splits)

lemma match_at_None_offset: "match_at r n off s = None \<longleftrightarrow> match_at r n 0 s = None"
  by (simp add: match_at_def split: option.splits)

lemma finditer_from_shift:
  "finditer_from r n (off + d) sk s = map (shift_match d) (finditer_from r n off sk s)"
proof (induction s arbitrary: off sk)
  case Nil
  then show ?case by (simp add: match_at_shift split: option.splits)
next
  case (Cons c s)
  have a: "finditer_from r n (Suc (off + d)) sk' s = map (shift_match d) (finditer_from r n (Suc off) sk' s)" for sk'
    using Cons.IH [of "Suc off" sk'] by simp
  show ?case
  proof (cases "0 < sk")
    case True
    then show ?thesis by (simp add: a)
  next
    case False
    then show ?thesis
      by (cases "match_at r n off (c # s)")
         (simp_all add: match_at_shift [of r n off d] a shift_match_def)
  qed
qed

lemma finditer_from_skip:
  "finditer_from r n off (length u) (u @ s) = finditer_from r n (off + length u) 0 s"
proof (induction u arbitrary: off)
  case Nil
  then show ?case by simp
next
  case (Cons c u)
  show ?case using Cons.IH [of "Suc off"] by simp
qed

lemma finditer_from_first:
  assumes "match_at r n off (u @ s) = Some m" and "m_end m = off + length u" and "u \<noteq> []"
  shows "finditer_from r n off 0 (u @ s) = m # finditer_from r n (off + length u) 0 s"
proof -
  from assms(3) obtain c u' where u: "u = c # u'" by (cases u) auto
  have "finditer_from r n off 0 (c # u' @ s) = m # finditer_from r n (Suc off) (length u') (u' @ s)"
    using assms(1,2) u by simp
  also have "finditer_from r n (Suc off) (length u') (u' @ s) = finditer_from r n (Suc off + length u') 0 s"
    by (rule finditer_from_skip)
  finally show ?thesis using u by simp
qed

lemma finditer_from_no_match:
  "no_match_in r n a t \<Longrightarrow> finditer_from r n off 0 (a @ t) = finditer_from r n (off + length a) 0 t"
proof (induction a arbitrary: off)
  case Nil
  then show ?case by simp
next
  case (Cons c a)
  from Cons.prems have "match_at r n off (c # a @ t) = None" and "no_match_in r n a t"
    using match_at_None_offset [of r n off "c # a @ t"] by simp_all
  then show ?case using Cons.IH [of "Suc off"] by simp
qed

lemma search_from_exists:
  "match_at r n 0 t \<noteq> None \<Longrightarrow> search_from r n off (a @ t) \<noteq> None"
proof (induction a arbitrary: off)
  case Nil
  then show ?case
    using match_at_None_offset [of r n off t] by (cases t) (auto split: option.splits)
next
  case (Cons c a)
  then show ?case by (auto split: option.splits)
qed

text \<open>A continuation that fails on every rest of the text makes the match fail.\<close>

lemma rep_suffix_None:
  assumes f: "\<And>k s' g. (\<exists>p. s = p @ s') \<Longrightarrow> (\<And>s'' g'. (\<exists>p. s = p @ s'') \<Longrightarrow> k (s'', g') = None) \<Longrightarrow> f k (s', g) = None"
    and k: "\<And>s'' g'. (\<exists>p. s = p @ s'') \<Longrightarrow> k (s'', g') = None"
    and s: "\<exists>p. s = p @ s'"
  shows "rep f n k (s', g) = None"
  using s
proof (induction n arbitrary: s' g)
  case 0
  then show ?case using k by simp
next
  case (Suc n)
  have "f (\<lambda>y. if length (fst y) < length (fst (s', g)) then rep f n k y else None) (s', g) = None"
  proof (rule f [OF Suc.prems])
    fix s'' g'
    assume "\<exists>p. s = p @ s''"
    then show "(if length (fst (s'', g')) < length (fst (s', g)) then rep f n k (s'', g') else None) = None"
      using Suc.IH by simp
  qed
  then show ?case using k [OF Suc.prems] by simp
qed

lemma rmatch_suffix_None:
  "(\<exists>p. s = p @ s') \<Longrightarrow> (\<And>s'' g'. (\<exists>p. s = p @ s'') \<Longrightarrow> k (s'', g') = None) \<Longrightarrow>
   rmatch r k (s', g) = None"
proof (induction r arbitrary: k s' g)
  case Epsilon
  then show ?case by simp
next
  case (Sym P)
  show ?case
  proof (cases s')
    case Nil
    then show ?thesis by simp
  next
    case (Cons c cs)
    from Sym.prems(1) obtain p where "s = p @ c # cs" using Cons by auto
    then have "s = (p @ [c]) @ cs" by simp
    then have "\<exists>p. s = p @ cs" by blast
    then have "k (cs, g) = None" by (rule Sym.prems(2))
    then show ?thesis using Cons by simp
  qed
next
  case (Cat r1 r2)
  have "rmatch r1 (rmatch r2 k) (s', g) = None"
  proof (rule Cat.IH(1) [OF Cat.prems(1)])
    fix s'' g'
    assume "\<exists>p. s = p @ s''"
    then show "rmatch r2 k (s'', g') = None"
      using Cat.prems(2) by (rule Cat.IH(2))
  qed
  then show ?case by simp
next
  case (Alt r1 r2)
  then show ?case by simp
next
  case (Rep r)
  have "rep (rmatch r) (length s') k (s', g) = None"
  proof (rule rep_suffix_None [where s = s])
    fix k' :: cont and t g0
    assume "\<exists>p. s = p @ t" and "\<And>s'' g'. \<exists>p. s = p @ s'' \<Longrightarrow> k' (s'', g') = None"
    then show "rmatch r k' (t, g0) = None" by (rule Rep.IH)
  next
    fix s'' g'
    assume "\<exists>p. s = p @ s''"
    then show "k (s'', g') = None" by (rule Rep.prems(2))
  next
    show "\<exists>p. s = p @ s'" by (rule Rep.prems(1))
  qed
  then show ?case by simp
next
  case (Cap i r)
  have "rmatch r (\<lambda>y. k (fst y, (snd y)[i := Some (take (length (fst (s', g)) - length (fst y)) (fst (s', g)))])) (s', g) = None"
  proof (rule Cap.IH [OF Cap.prems(1)])
    fix s'' g'
    assume "\<exists>p. s = p @ s''"
    then show "k (fst (s'', g'), (snd (s'', g'))[i := Some (take (length (fst (s', g)) - length (fst (s'', g'))) (fst (s', g)))]) = None"
      using Cap.prems(2) by simp
  qed
  then show ?case by simp
qed

lemma needs_None:
  "needs r P \<Longrightarrow> list_all (\<lambda>c. \<not> P c) s \<Longrightarrow> rmatch r k (s, g) = None"
proof (induction r arbitrary: k s g)
  case Epsilon
  then show ?case by simp
next
  case (Sym Q)
  then show ?case by (cases s) auto
next
  case (Cat r1 r2)
  show ?case
  proof (cases "needs r1 P")
    case True
    then show ?thesis using Cat.prems(2) by (simp add: Cat.IH(1))
  next
    case False
    with Cat.prems(1) have n2: "needs r2 P" by simp
    have "rmatch r1 (rmatch r2 k) (s, g) = None"
    proof (rule rmatch_suffix_None [where s = s])
      show "\<exists>p. s = p @ s" by simp
    next
      fix s'' g'
      assume "\<exists>p. s = p @ s''"
      then have "list_all (\<lambda>c. \<not> P c) s''" using Cat.prems(2) by auto
      with n2 show "rmatch r2 k (s'', g') = None" by (rule Cat.IH(2))
    qed
    then show ?thesis by simp
  qed
next
  case (Alt r1 r2)
  then show ?case by simp
next
  case (Rep r)
  then show ?case by simp
next
  case (Cap i r)
  then show ?case by simp
qed

lemma needs_match_at: "needs r P \<Longrightarrow> list_all (\<lambda>c. \<not> P c) s \<Longrightarrow> match_at r n off s = None"
  by (simp add: match_at_def needs_None)

lemma needs_search_from:
  "needs r P \<Longrightarrow> list_all (\<lambda>c. \<not> P c) s \<Longrightarrow> search_from r n off s = None"
  by (induction s arbitrary: off) (simp_all add: needs_match_at)

lemma needs_finditer_from:
  "needs r P \<Longrightarrow> list_all (\<lambda>c. \<not> P c) s \<Longrightarrow> finditer_from r n off 0 s = []"
  by (induction s arbitrary: off) (simp_all add: needs_match_at)

subsection \<open>The endpoints of a text\<close>

lemma extract_parameters_found:
  "extract_parameters method_signature content = Inr (found_parameters method_signature)"
  by (simp add: found_parameters_def extract_parameters_total)

lemma endpoint_of_match_total:
  "endpoint_of_match content base_path m = Inr (endpoints_of base_path m)"
  by (simp add: endpoint_of_match_def endpoints_of_def endpoint_for_def annotations_of_def
        or_json_def extract_parameters_found Let_def split: option.splits)

lemma extract_endpoints_concat:
  "extract_endpoints content base_path =
     Inr (concat (map (endpoints_of base_path) (re_finditer method_pattern 2 content)))"
  unfolding extract_endpoints_def
  by (rule for_append_total) (rule endpoint_of_match_total)

lemma extract_endpoints_found:
  "extract_endpoints content base_path = Inr (found_endpoints content base_path)"
  by (simp add: found_endpoints_def extract_endpoints_concat)

lemma found_endpoints_concat:
  "found_endpoints content base_path =
     concat (map (endpoints_of base_path) (re_finditer method_pattern 2 content))"
  by (simp add: found_endpoints_def extract_endpoints_concat)

lemma group_shift: "group (shift_match d m) i = group m i"
  by (simp add: group_def shift_match_def)

lemma endpoints_of_shift: "endpoints_of base_path (shift_match d m) = endpoints_of base_path m"
  unfolding endpoints_of_def annotations_of_def group_text_def group_shift ..

lemma found_endpoints_shift:
  "concat (map (endpoints_of base_path) (finditer_from method_pattern 2 d 0 s)) =
   found_endpoints s base_path"
proof -
  have "finditer_from method_pattern 2 (0 + d) 0 s =
      map (shift_match d) (finditer_from method_pattern 2 0 0 s)"
    by (rule finditer_from_shift)
  then show ?thesis
    by (simp add: found_endpoints_concat re_finditer_def comp_def endpoints_of_shift)
qed

lemma found_endpoints_first:
  assumes "match_at method_pattern 2 0 (u @ s) = Some m" and "m_end m = length u" and "u \<noteq> []"
  shows "found_endpoints (u @ s) base_path = endpoints_of base_path m @ found_endpoints s base_path"
proof -
  have "finditer_from method_pattern 2 0 0 (u @ s) =
      m # finditer_from method_pattern 2 (0 + length u) 0 s"
    using assms by (intro finditer_from_first) simp_all
  then show ?thesis
    by (simp add: found_endpoints_concat [of "u @ s"] re_finditer_def found_endpoints_shift)
qed

lemma found_endpoints_skip:
  assumes "no_match_in method_pattern 2 a t"
  shows "found_endpoints (a @ t) base_path = found_endpoints t base_path"
proof -
  have "finditer_from method_pattern 2 0 0 (a @ t) = finditer_from method_pattern 2 (0 + length a) 0 t"
    using assms by (rule finditer_from_no_match)
  then show ?thesis
    by (simp add: found_endpoints_concat [of "a @ t"] re_finditer_def found_endpoints_shift)
qed

lemma endpoints_of_groups:
  "m_groups m = [Some u, Some a, Some nm] \<Longrightarrow> endpoints_of base_path m = endpoint_for base_path a nm u"
  by (simp add: endpoints_of_def annotations_of_def group_def group_text_def)

lemma found_endpoints_method:
  assumes "list_all ann_ok bs" and "bs \<noteq> []" and "ann_closed (last bs)" and "sig_ok sg"
    and "no_match_in method_pattern 2 pre (anns_text bs @ sig_text sg @ rest)"
  shows "found_endpoints (pre @ anns_text bs @ sig_text sg @ rest) base_path =
     endpoint_for base_path (ann_text (last bs)) (s_name sg) (anns_text bs @ sig_text sg)
     @ found_endpoints rest base_path"
proof -
  let ?u = "anns_text bs @ sig_text sg"
  let ?m = "\<lparr>m_start = 0, m_end = 0 + length ?u,
             m_groups = [Some ?u, if bs = [] then None else Some (ann_text (last bs)),
                         Some (s_name sg)]\<rparr>"
  have m: "match_at method_pattern 2 0 (anns_text bs @ sig_text sg @ rest) = Some ?m"
    using assms(1,3,4) by (intro match_at_method) simp_all
  have ne: "?u \<noteq> []"
    using assms(2) by (cases bs) (simp_all add: anns_text_Cons ann_text_nonempty)
  have "found_endpoints (?u @ rest) base_path = endpoints_of base_path ?m @ found_endpoints rest base_path"
    using m ne by (intro found_endpoints_first) simp_all
  moreover have "found_endpoints (pre @ ?u @ rest) base_path = found_endpoints (?u @ rest) base_path"
    using assms(5) by (intro found_endpoints_skip) simp
  moreover have "endpoints_of base_path ?m =
     endpoint_for base_path (ann_text (last bs)) (s_name sg) ?u"
    using assms(2) by (intro endpoints_of_groups) simp
  ultimately show ?thesis
    by (simp only: append_assoc)
qed

subsection \<open>Texts without a match\<close>

lemma needs_path_pattern: "needs path_pattern (\<lambda>c. c = CHR ''('')"
  by (simp add: path_pattern_def rchr_def)

lemma needs_media_pattern: "needs (media_pattern t) (\<lambda>c. c = CHR ''('')"
  by (simp add: media_pattern_def rchr_def)

lemma needs_param_pattern: "needs param_pattern (\<lambda>c. c \<in> set quotes)"
  by (simp add: param_pattern_def any_of_def)

lemma extract_method_path_no_paren:
  "CHR ''('' \<notin> set a \<Longrightarrow> extract_method_path a = []"
proof -
  assume "CHR ''('' \<notin> set a"
  then have "list_all (\<lambda>c. \<not> c = CHR ''('') a"
    by (auto simp: list_all_iff)
  then have "search_from path_pattern 1 0 a = None"
    by (rule needs_search_from [OF needs_path_pattern])
  then show ?thesis
    by (simp add: extract_method_path_def re_search_def)
qed

lemma extract_media_types_no_paren:
  "CHR ''('' \<notin> set a \<Longrightarrow> extract_media_types a t = []"
proof -
  assume "CHR ''('' \<notin> set a"
  then have "list_all (\<lambda>c. \<not> c = CHR ''('') a"
    by (auto simp: list_all_iff)
  then have "search_from (media_pattern t) 1 0 a = None"
    by (rule needs_search_from [OF needs_media_pattern])
  then show ?thesis
    by (simp add: extract_media_types_def re_search_def)
qed

lemma found_parameters_no_quotes:
  "set s \<inter> set quotes = {} \<Longrightarrow> found_parameters s = []"
proof -
  assume "set s \<inter> set quotes = {}"
  then have "list_all (\<lambda>c. \<not> c \<in> set quotes) s"
    by (auto simp: list_all_iff)
  then have "finditer_from param_pattern 4 0 0 s = []"
    by (rule needs_finditer_from [OF needs_param_pattern])
  then show ?thesis
    by (simp add: found_parameters_def extract_parameters_def re_finditer_def)
qed

lemma is_space_no_paren: "is_space c \<Longrightarrow> c \<noteq> CHR ''(''"
  by (auto simp: is_space_def)

lemma is_word_no_paren: "is_word c \<Longrightarrow> c \<noteq> CHR ''(''"
  by (auto simp: is_word_def)

lemma is_space_no_quote: "is_space c \<Longrightarrow> c \<notin> set quotes"
  by (auto simp: is_space_def quotes_def)

lemma is_word_no_quote: "is_word c \<Longrightarrow> c \<notin> set quotes"
  by (auto simp: is_word_def quotes_def)

lemma ann_text_no_args_no_paren:
  assumes "ann_ok b" and "a_args b = None"
  shows "CHR ''('' \<notin> set (ann_text b)"
proof (cases b)
  case (Annotation w sp args tr)
  with assms show ?thesis
    by (auto simp: list_all_iff dest: is_space_no_paren is_word_no_paren)
qed

lemma discovered_Nil: "discovered [] = []"
  by (simp add: discovered_def)

lemma discovered_Cons:
  "discovered (f # files) = kept (snd (analyze_java_file f)) @ discovered files"
  using analyze_loop_snd [of "f # files" "[]"] analyze_loop_snd [of files "kept (snd (analyze_java_file f))"]
  by (simp only: analyze_loop_Cons snd_conv append_Nil)

lemma discovered_append: "discovered (xs @ ys) = discovered xs @ discovered ys"
  by (induction xs) (simp_all add: discovered_Nil discovered_Cons)

lemma not_qualifies_kept: "\<not> qualifies f \<Longrightarrow> kept (snd (analyze_java_file f)) = []"
  by (auto simp: qualifies_def analyze_java_file_def kept_def split: sum.splits)

lemma discovered_not_qualifying: "list_all (\<lambda>f. \<not> qualifies f) fs \<Longrightarrow> discovered fs = []"
  by (induction fs) (simp_all add: discovered_Nil discovered_Cons not_qualifies_kept)

lemma analyze_java_file_found:
  "is_jaxrs_resource content \<Longrightarrow>
   analyze_java_file (p, Inr content) =
     ([], Some \<lparr>res_class_name = extract_class_name content,
                res_base_path = (case extract_class_path content of None \<Rightarrow> [] | Some bp \<Rightarrow> bp),
                res_endpoints = found_endpoints content (extract_class_path content),
                res_description = []\<rparr>)"
  by (simp add: analyze_java_file_def extract_endpoints_found Let_def)

lemma found_resources_discovered:
  "found_resources fs rp = discovered (find_java_files fs (JaxRSAnalyzer_init rp))"
  by (simp add: found_resources_def analyze_result JaxRSAnalyzer_init_def)

lemma is_jaxrs_resource_GET:
  assumes "is_space c"
  shows "is_jaxrs_resource (pre @ ''@GET'' @ c # s)"
proof -
  let ?r = "rseq [rlit ''@GET'', space_or_newline]"
  have 2: "takes (rseq [space_or_newline]) ([c] @ []) s (\<lambda>g. g)"
    unfolding space_or_newline_def using assms
    by (intro takes_seq_step takes_seq_Nil takes_Sym) simp
  have "takes (rlit ''@GET'') ''@GET'' (([c] @ []) @ s) (\<lambda>g. g)"
    by (rule takes_lit)
  then have "takes ?r (''@GET'' @ [c] @ []) s (\<lambda>g. g)"
    using 2 by (rule takes_seq_step)
  then have "match_at ?r 0 0 ((''@GET'' @ [c] @ []) @ s) \<noteq> None"
    by (simp only: takes_match_at) simp
  then have "search_from ?r 0 0 (pre @ (''@GET'' @ [c] @ []) @ s) \<noteq> None"
    by (rule search_from_exists)
  then have "re_search ?r 0 (pre @ ''@GET'' @ c # s) \<noteq> None"
    by (simp add: re_search_def)
  then show ?thesis
    by (simp add: is_jaxrs_resource_def jaxrs_patterns_def)
qed

lemma extract_http_method_GET: "extract_http_method (''@GET'' @ s) = Some GET"
  by (simp add: extract_http_method_def JAX_RS_ANNOTATIONS_def)

lemma sig_text_no_quotes:
  assumes "sig_ok sg" and "list_all is_space (s_args sg)"
  shows "set (sig_text sg) \<inter> set quotes = {}"
proof (cases sg)
  case (Signature sp1 ty sp2 nm sp3 args)
  have "c \<notin> set quotes" if "c \<in> set (sig_text sg)" for c
  proof -
    from that Signature have "c \<in> set ''public()'' \<or> c \<in> set sp1 \<or> c \<in> set ty \<or>
        c \<in> set sp2 \<or> c \<in> set nm \<or> c \<in> set sp3 \<or> c \<in> set args"
      by auto
    moreover have "is_space c \<or> is_word c"
      if "c \<in> set sp1 \<or> c \<in> set ty \<or> c \<in> set sp2 \<or> c \<in> set nm \<or> c \<in> set sp3 \<or> c \<in> set args"
      using that assms Signature by (auto simp: list_all_iff)
    ultimately show ?thesis
      using is_space_no_quote [of c] is_word_no_quote [of c] by (auto simp: quotes_def)
  qed
  then show ?thesis by auto
qed

lemma get_annotation_no_quotes:
  assumes "list_all is_space sp" and "list_all is_space tr"
  shows "set (ann_text (Annotation ''GET'' sp None tr)) \<inter> set quotes = {}"
proof -
  have "c \<notin> set quotes" if "c \<in> set (ann_text (Annotation ''GET'' sp None tr))" for c
  proof -
    from that have "c \<in> set ''@GET'' \<or> c \<in> set sp \<or> c \<in> set tr" by auto
    then show ?thesis
      using assms is_space_no_quote [of c] by (auto simp: quotes_def list_all_iff)
  qed
  then show ?thesis by auto
qed

lemma single_get_method_found:
  assumes files: "find_java_files fs (JaxRSAnalyzer_init rp) = before @ [(p, Inr content)] @ after"
    and others: "list_all (\<lambda>f. \<not> qualifies f) (before @ after)"
    and content: "content = pre @ ann_text (Annotation ''GET'' sp None tr) @ sig_text sg @ rest"
    and spaces: "list_all is_space sp" "list_all is_space tr" "sp @ tr \<noteq> []"
    and sg: "sig_ok sg" "list_all is_space (s_args sg)"
    and class_path: "extract_class_path content = Some ''/users''"
    and single: "no_match_in method_pattern 2 pre
                   (ann_text (Annotation ''GET'' sp None tr) @ sig_text sg @ rest)"
                "re_finditer method_pattern 2 rest = []"
  shows "snd (snd (analyze fs (JaxRSAnalyzer_init rp))) =
     [\<lparr>res_class_name = extract_class_name content,
       res_base_path = ''/users'',
       res_endpoints =
         [\<lparr>ep_path = ''/users'', ep_method = GET, ep_operation_id = s_name sg,
           ep_summary = [], ep_description = [], ep_parameters = [],
           ep_request_body = None, ep_responses = [],
           ep_consumes = [''application/json''], ep_produces = [''application/json''],
           ep_tags = []\<rparr>],
       res_description = []\<rparr>]"
proof -
  let ?b = "Annotation ''GET'' sp None tr"
  let ?e = "\<lparr>ep_path = ''/users'', ep_method = GET, ep_operation_id = s_name sg,
           ep_summary = [], ep_description = [], ep_parameters = [],
           ep_request_body = None, ep_responses = [],
           ep_consumes = [''application/json''], ep_produces = [''application/json''],
           ep_tags = []\<rparr>"
  let ?r = "\<lparr>res_class_name = extract_class_name content, res_base_path = ''/users'',
           res_endpoints = [?e], res_description = []\<rparr>"
  have ok: "list_all ann_ok [?b]"
    using spaces by (simp add: is_word_def)
  have closed: "ann_closed (last [?b])"
    using spaces(3) by simp
  have btext: "anns_text [?b] = ann_text ?b"
    by (simp add: anns_text_def)
  have no_paren: "CHR ''('' \<notin> set (ann_text ?b)"
    using ok by (intro ann_text_no_args_no_paren) simp_all
  have http: "extract_http_method (ann_text ?b) = Some GET"
    using extract_http_method_GET [of "sp @ tr"] by simp
  have path: "extract_method_path (ann_text ?b) = []"
    using no_paren by (rule extract_method_path_no_paren)
  have media: "extract_media_types (ann_text ?b) t = []" for t
    using no_paren by (rule extract_media_types_no_paren)
  have "set (ann_text ?b @ sig_text sg) \<inter> set quotes = {}"
    using get_annotation_no_quotes [OF spaces(1,2)] sig_text_no_quotes [OF sg]
    by (simp only: set_append Int_Un_distrib2) simp
  then have params: "found_parameters (ann_text ?b @ sig_text sg) = []"
    by (rule found_parameters_no_quotes)
  have rest: "found_endpoints rest (Some ''/users'') = []"
    using single(2) by (simp add: found_endpoints_concat)
  have "found_endpoints (pre @ anns_text [?b] @ sig_text sg @ rest) (Some ''/users'') =
      endpoint_for (Some ''/users'') (ann_text (last [?b])) (s_name sg) (anns_text [?b] @ sig_text sg)
      @ found_endpoints rest (Some ''/users'')"
    using ok _ closed sg(1)
  proof (rule found_endpoints_method)
    show "[?b] \<noteq> []" by simp
    show "no_match_in method_pattern 2 pre (anns_text [?b] @ sig_text sg @ rest)"
      using single(1) by (simp only: btext)
  qed
  moreover have "endpoint_for (Some ''/users'') (ann_text ?b) (s_name sg) (ann_text ?b @ sig_text sg) = [?e]"
    by (simp only: endpoint_for_def http path media params)
       (simp add: combine_paths_def or_json_def)
  ultimately have eps: "found_endpoints content (Some ''/users'') = [?e]"
    by (simp only: btext last.simps if_True simp_thms rest content append_Nil2)
  have "list_all is_space (sp @ tr)"
    using spaces by simp
  with spaces(3) obtain c s' where c: "sp @ tr = c # s'" "is_space c"
    by (cases "sp @ tr") simp_all
  have "content = pre @ ''@GET'' @ c # (s' @ sig_text sg @ rest)"
    using content c(1) by simp
  then have "is_jaxrs_resource content"
    using is_jaxrs_resource_GET [OF c(2)] by simp
  then have jfile: "analyze_java_file (p, Inr content) = ([], Some ?r)"
    by (simp add: analyze_java_file_found class_path eps)
  have "discovered (before @ [(p, Inr content)] @ after) =
      discovered before @ kept (Some ?r) @ discovered after"
    by (simp add: discovered_append discovered_Cons discovered_Nil jfile)
  moreover have "discovered before = []" and "discovered after = []"
    using others by (simp_all add: discovered_not_qualifying)
  ultimately have "discovered (before @ [(p, Inr content)] @ after) = [?r]"
    by (simp add: kept_def)
  then show ?thesis
    using files found_resources_discovered [of fs rp] by (simp add: found_resources_def)
qed

subsection \<open>Form parameters\<close>

lemma takes_kind_FormParam:
  assumes "stops is_word s"
  shows "takes (rseq [rplus re_w, rlit ''Param'']) ''FormParam'' s (\<lambda>g. g)"
proof (rule takesI)
  fix k :: cont and g z
  assume k: "k (s, g) = Some z"
  have stop: "rep (rmatch (Sym is_word)) n k' (s, g') = k' (s, g')" for n k' g'
    using assms by (cases n; cases s) (simp_all add: stops_def)
  have noP: "(case s of [] \<Rightarrow> None | c # cs \<Rightarrow> if c = CHR ''P'' then f c cs else None) = None"
    for f :: "char \<Rightarrow> string \<Rightarrow> mstate option"
    using assms by (cases s) (auto simp: stops_def is_word_def)
  show "rmatch (rseq [rplus re_w, rlit ''Param'']) k (''FormParam'' @ s, g) = Some z"
    using k by (simp add: rplus_def re_w_def is_word_def stop noP)
qed

lemma takes_form_param:
  assumes ok: "form_param_ok q1 nm q2 sp1 ty sp2 v" and rest: "stops is_word s"
  shows "takes param_pattern (form_param_text q1 nm q2 sp1 ty sp2 v) s
     (\<lambda>g. g[1 := Some ''FormParam'', 2 := Some nm, 3 := Some ty, 4 := Some v])"
proof -
  from ok have q1: "q1 \<in> set quotes" and q2: "q2 \<in> set quotes"
    and nm: "nm \<noteq> []" "list_all (\<lambda>c. c \<notin> set quotes) nm"
    and sp1: "sp1 \<noteq> []" "list_all is_space sp1" and ty: "ty \<noteq> []" "list_all is_word ty"
    and sp2: "sp2 \<noteq> []" "list_all is_space sp2" and v: "v \<noteq> []" "list_all is_word v"
    by (simp_all add: form_param_ok_def)
  let ?r14 = "[Cap 4 (rplus re_w)]"
  let ?r13 = "rplus re_s # ?r14"
  let ?r12 = "Cap 3 (rplus re_w) # ?r13"
  let ?r11 = "rplus re_s # ?r12"
  let ?r10 = "rchr CHR '')'' # ?r11"
  let ?r9 = "rstar re_s # ?r10"
  let ?r8 = "any_of quotes # ?r9"
  let ?r7 = "Cap 2 (rplus (none_of quotes)) # ?r8"
  let ?r6 = "any_of quotes # ?r7"
  let ?r5 = "rstar re_s # ?r6"
  let ?r4 = "rchr CHR ''('' # ?r5"
  let ?r3 = "rstar re_s # ?r4"
  let ?r2 = "Cap 1 (rseq [rplus re_w, rlit ''Param'']) # ?r3"
  let ?t14 = "v @ []"
  let ?t13 = "sp2 @ ?t14"
  let ?t12 = "ty @ ?t13"
  let ?t11 = "sp1 @ ?t12"
  let ?t10 = "'')'' @ ?t11"
  let ?t9 = "[] @ ?t10"
  let ?t8 = "[q2] @ ?t9"
  let ?t7 = "nm @ ?t8"
  let ?t6 = "[q1] @ ?t7"
  let ?t5 = "[] @ ?t6"
  let ?t4 = "''('' @ ?t5"
  let ?t3 = "[] @ ?t4"
  let ?t2 = "''FormParam'' @ ?t3"
  have "takes (rplus re_w) v ([] @ s) (\<lambda>g. g)"
    unfolding re_w_def using v rest by (intro takes_plus_run) simp_all
  then have "takes (Cap 4 (rplus re_w)) v ([] @ s) (\<lambda>g. g[4 := Some v])"
    by (rule takes_Cap)
  then have 14: "takes (rseq ?r14) ?t14 s (\<lambda>g. g[4 := Some v])"
    using takes_seq_Nil by (rule takes_seq_cap)
  have "stops is_space (?t14 @ s)"
    using v by (cases v) (simp_all add: is_word_not_space)
  then have "takes (rplus re_s) sp2 (?t14 @ s) (\<lambda>g. g)"
    unfolding re_s_def using sp2 by (intro takes_plus_run) simp_all
  then have 13: "takes (rseq ?r13) ?t13 s (\<lambda>g. g[4 := Some v])"
    using 14 by (rule takes_seq_step)
  have "stops is_word (?t13 @ s)"
    using sp2 by (cases sp2) (simp_all add: is_space_not_word)
  then have "takes (rplus re_w) ty (?t13 @ s) (\<lambda>g. g)"
    unfolding re_w_def using ty by (intro takes_plus_run) simp_all
  then have "takes (Cap 3 (rplus re_w)) ty (?t13 @ s) (\<lambda>g. g[3 := Some ty])"
    by (rule takes_Cap)
  then have 12: "takes (rseq ?r12) ?t12 s (\<lambda>g. g[3 := Some ty, 4 := Some v])"
    using 13 by (rule takes_seq_Cons)
  have "stops is_space (?t12 @ s)"
    using ty by (cases ty) (simp_all add: is_word_not_space)
  then have "takes (rplus re_s) sp1 (?t12 @ s) (\<lambda>g. g)"
    unfolding re_s_def using sp1 by (intro takes_plus_run) simp_all
  then have 11: "takes (rseq ?r11) ?t11 s (\<lambda>g. g[3 := Some ty, 4 := Some v])"
    using 12 by (rule takes_seq_step)
  have "takes (rchr CHR '')'') '')'' (?t11 @ s) (\<lambda>g. g)"
    by (rule takes_chr)
  then have 10: "takes (rseq ?r10) ?t10 s (\<lambda>g. g[3 := Some ty, 4 := Some v])"
    using 11 by (rule takes_seq_step)
  have "takes (rstar re_s) [] (?t10 @ s) (\<lambda>g. g)"
    unfolding re_s_def by (intro takes_star_run) (simp_all add: is_space_def)
  then have 9: "takes (rseq ?r9) ?t9 s (\<lambda>g. g[3 := Some ty, 4 := Some v])"
    using 10 by (rule takes_seq_step)
  have "takes (any_of quotes) [q2] (?t9 @ s) (\<lambda>g. g)"
    unfolding any_of_def using q2 by (intro takes_Sym)
  then have 8: "takes (rseq ?r8) ?t8 s (\<lambda>g. g[3 := Some ty, 4 := Some v])"
    using 9 by (rule takes_seq_step)
  have "stops (\<lambda>x. x \<notin> set quotes) (?t8 @ s)"
    using q2 by simp
  then have "takes (rplus (none_of quotes)) nm (?t8 @ s) (\<lambda>g. g)"
    unfolding none_of_def using nm by (intro takes_plus_run) simp_all
  then have "takes (Cap 2 (rplus (none_of quotes))) nm (?t8 @ s) (\<lambda>g. g[2 := Some nm])"
    by (rule takes_Cap)
  then have 7: "takes (rseq ?r7) ?t7 s (\<lambda>g. g[2 := Some nm, 3 := Some ty, 4 := Some v])"
    using 8 by (rule takes_seq_Cons)
  have "takes (any_of quotes) [q1] (?t7 @ s) (\<lambda>g. g)"
    unfolding any_of_def using q1 by (intro takes_Sym)
  then have 6: "takes (rseq ?r6) ?t6 s (\<lambda>g. g[2 := Some nm, 3 := Some ty, 4 := Some v])"
    using 7 by (rule takes_seq_step)
  have "stops is_space (?t6 @ s)"
    using q1 by (auto simp: quotes_def is_space_def)
  then have "takes (rstar re_s) [] (?t6 @ s) (\<lambda>g. g)"
    unfolding re_s_def by (intro takes_star_run) simp_all
  then have 5: "takes (rseq ?r5) ?t5 s (\<lambda>g. g[2 := Some nm, 3 := Some ty, 4 := Some v])"
    using 6 by (rule takes_seq_step)
  have "takes (rchr CHR ''('') ''('' (?t5 @ s) (\<lambda>g. g)"
    by (rule takes_chr)
  then have 4: "takes (rseq ?r4) ?t4 s (\<lambda>g. g[2 := Some nm, 3 := Some ty, 4 := Some v])"
    using 5 by (rule takes_seq_step)
  have "takes (rstar re_s) [] (?t4 @ s) (\<lambda>g. g)"
    unfolding re_s_def by (intro takes_star_run) (simp_all add: is_space_def)
  then have 3: "takes (rseq ?r3) ?t3 s (\<lambda>g. g[2 := Some nm, 3 := Some ty, 4 := Some v])"
    using 4 by (rule takes_seq_step)
  have "takes (rseq [rplus re_w, rlit ''Param'']) ''FormParam'' (?t3 @ s) (\<lambda>g. g)"
    by (intro takes_kind_FormParam) (simp add: is_word_def)
  then have "takes (Cap 1 (rseq [rplus re_w, rlit ''Param''])) ''FormParam'' (?t3 @ s)
      (\<lambda>g. g[1 := Some ''FormParam''])"
    by (rule takes_Cap)
  then have 2: "takes (rseq ?r2) ?t2 s
      (\<lambda>g. g[1 := Some ''FormParam'', 2 := Some nm, 3 := Some ty, 4 := Some v])"
    using 3 by (rule takes_seq_Cons)
  have "takes (rchr CHR ''@'') ''@'' (?t2 @ s) (\<lambda>g. g)"
    by (rule takes_chr)
  then have "takes param_pattern (''@'' @ ?t2) s
      (\<lambda>g. g[1 := Some ''FormParam'', 2 := Some nm, 3 := Some ty, 4 := Some v])"
    unfolding param_pattern_def using 2 by (rule takes_seq_step)
  then show ?thesis
    by (simp add: form_param_text_def)
qed

lemma found_parameters_concat:
  "found_parameters s = concat (map params_of (re_finditer param_pattern 4 s))"
  by (simp add: found_parameters_def extract_parameters_total)

lemma found_parameters_cases:
  "p \<in> set (found_parameters s) \<Longrightarrow>
   (param_in p = AStr ''path'' \<and> param_required p) \<or>
   (param_in p \<in> {AStr ''query'', AStr ''header'', AStr ''cookie''} \<and> \<not> param_required p)"
  unfolding found_parameters_concat using params_of_cases by auto

lemma found_parameters_required:
  "p \<in> set (found_parameters s) \<Longrightarrow> required_iff_path p"
  using found_parameters_cases [of p s] by (auto simp: required_iff_path_def)

lemma found_endpoints_member:
  assumes "e \<in> set (found_endpoints content base_path)"
  shows "\<exists>a nm u hm. extract_http_method a = Some hm \<and>
     e = \<lparr>ep_path = combine_paths base_path (extract_method_path a),
          ep_method = hm, ep_operation_id = nm, ep_summary = [], ep_description = [],
          ep_parameters = found_parameters u, ep_request_body = None, ep_responses = [],
          ep_consumes = or_json (extract_media_types a ''@Consumes''),
          ep_produces = or_json (extract_media_types a ''@Produces''),
          ep_tags = []\<rparr>"
proof -
  from assms obtain m where "e \<in> set (endpoints_of base_path m)"
    by (auto simp: found_endpoints_concat)
  then show ?thesis
    unfolding endpoints_of_def endpoint_for_def
    by (cases "extract_http_method (annotations_of m)") auto
qed

lemma or_json_nonempty: "or_json ts \<noteq> []"
  by (simp add: or_json_def)

lemma param_pattern_not_empty: "match_at param_pattern n off [] = None"
  by (simp add: match_at_def param_pattern_def rchr_def)

lemma finditer_form_param:
  assumes "form_param_ok q1 nm q2 sp1 ty sp2 v"
  shows "map m_groups (re_finditer param_pattern 4 (form_param_text q1 nm q2 sp1 ty sp2 v)) =
     [[Some (form_param_text q1 nm q2 sp1 ty sp2 v), Some ''FormParam'', Some nm, Some ty, Some v]]"
proof -
  let ?u = "form_param_text q1 nm q2 sp1 ty sp2 v"
  let ?m = "\<lparr>m_start = 0, m_end = 0 + length ?u,
      m_groups = ((replicate (Suc 4) None)[1 := Some ''FormParam'', 2 := Some nm, 3 := Some ty,
                    4 := Some v])[0 := Some ?u]\<rparr>"
  have "takes param_pattern ?u [] (\<lambda>g. g[1 := Some ''FormParam'', 2 := Some nm, 3 := Some ty, 4 := Some v])"
    using assms by (rule takes_form_param) simp
  then have m: "match_at param_pattern 4 0 (?u @ []) = Some ?m"
    by (rule takes_match_at)
  have "?u \<noteq> []" by (simp add: form_param_text_def)
  with m have "finditer_from param_pattern 4 0 0 (?u @ []) =
      ?m # finditer_from param_pattern 4 (0 + length ?u) 0 []"
    by (intro finditer_from_first) simp_all
  then show ?thesis
    by (simp add: re_finditer_def param_pattern_not_empty numeral_eq_Suc)
qed

lemma param_of_match_form: "group_text m 1 = ''FormParam'' \<Longrightarrow> param_of_match m = Inr []"
  by (simp add: param_of_match_def)

lemma params_of_location: "p \<in> set (params_of m) \<Longrightarrow> collected_location p"
  using params_of_cases [of p m] by (auto simp: collected_location_def)

lemma m_groups_shift: "m_groups (shift_match d m) = m_groups m"
  by (simp add: shift_match_def)

lemma finditer_groups_method:
  assumes "list_all ann_ok bs" and "bs \<noteq> []" and "ann_closed (last bs)" and "sig_ok sg"
    and "no_match_in method_pattern 2 pre (anns_text bs @ sig_text sg @ rest)"
  shows "map m_groups (re_finditer method_pattern 2 (pre @ anns_text bs @ sig_text sg @ rest)) =
     [Some (anns_text bs @ sig_text sg), Some (ann_text (last bs)), Some (s_name sg)] #
     map m_groups (re_finditer method_pattern 2 rest)"
proof -
  let ?u = "anns_text bs @ sig_text sg"
  let ?off = "0 + length pre"
  let ?m = "\<lparr>m_start = ?off, m_end = ?off + length ?u,
             m_groups = [Some ?u, if bs = [] then None else Some (ann_text (last bs)),
                         Some (s_name sg)]\<rparr>"
  have m: "match_at method_pattern 2 ?off (anns_text bs @ sig_text sg @ rest) = Some ?m"
    using assms(1,3,4) by (intro match_at_method) simp_all
  have ne: "?u \<noteq> []"
    using assms(2) by (cases bs) (simp_all add: anns_text_Cons ann_text_nonempty)
  have "finditer_from method_pattern 2 0 0 (pre @ ?u @ rest) =
      finditer_from method_pattern 2 ?off 0 (?u @ rest)"
    using assms(5) by (intro finditer_from_no_match) simp
  also have "\<dots> = ?m # finditer_from method_pattern 2 (?off + length ?u) 0 rest"
    using m ne by (intro finditer_from_first) simp_all
  also have "finditer_from method_pattern 2 (?off + length ?u) 0 rest =
      map (shift_match (?off + length ?u)) (finditer_from method_pattern 2 0 0 rest)"
    using finditer_from_shift [of method_pattern 2 0 "?off + length ?u" 0 rest] by simp
  finally show ?thesis
    using assms(2) by (simp add: re_finditer_def comp_def m_groups_shift)
qed

subsection \<open>The class-level path\<close>

lemma search_from_first:
  "no_match_in r n pre t \<Longrightarrow> match_at r n (off + length pre) t = Some m \<Longrightarrow>
   search_from r n off (pre @ t) = Some m"
proof (induction pre arbitrary: off)
  case Nil
  then show ?case by (cases t) simp_all
next
  case (Cons c pre)
  from Cons.prems(1) have "match_at r n off (c # pre @ t) = None"
    using match_at_None_offset [of r n off "c # pre @ t"] by simp
  moreover have "search_from r n (Suc off) (pre @ t) = Some m"
    using Cons.prems by (intro Cons.IH) simp_all
  ultimately show ?case by simp
qed

lemma takes_public_class:
  assumes "case pub of None \<Rightarrow> True | Some sp5 \<Rightarrow> sp5 \<noteq> [] \<and> list_all is_space sp5"
  shows "takes (rseq [ropt (rseq [rlit ''public'', rplus re_s]), rlit ''class''])
     ((case pub of None \<Rightarrow> [] | Some sp5 \<Rightarrow> ''public'' @ sp5) @ ''class'') s (\<lambda>g. g)"
proof -
  have c: "takes (rseq [rlit ''class'']) (''class'' @ []) s (\<lambda>g. g)"
    using takes_lit takes_seq_Nil by (rule takes_seq_step)
  show ?thesis
  proof (cases pub)
    case None
    have "fails (rseq [rlit ''public'', rplus re_s]) ([] @ ''class'' @ [] @ s)"
      by (simp add: fails_def)
    then have "takes (ropt (rseq [rlit ''public'', rplus re_s])) [] ((''class'' @ []) @ s) (\<lambda>g. g)"
      unfolding ropt_def using takes_Epsilon by (intro takes_Alt2) simp_all
    then have "takes (rseq [ropt (rseq [rlit ''public'', rplus re_s]), rlit ''class''])
        ([] @ ''class'' @ []) s (\<lambda>g. g)"
      using c by (rule takes_seq_step)
    with None show ?thesis by simp
  next
    case (Some sp5)
    with assms have sp5: "sp5 \<noteq> []" "list_all is_space sp5" by simp_all
    have "stops is_space ((''class'' @ []) @ s)"
      by (simp add: is_space_def)
    then have "takes (rplus re_s) sp5 ([] @ (''class'' @ []) @ s) (\<lambda>g. g)"
      unfolding re_s_def using sp5 by (intro takes_plus_run) simp_all
    then have "takes (rseq [rplus re_s]) (sp5 @ []) ((''class'' @ []) @ s) (\<lambda>g. g)"
      using takes_seq_Nil by (rule takes_seq_step)
    with takes_lit
    have "takes (rseq [rlit ''public'', rplus re_s]) (''public'' @ sp5 @ [])
        ((''class'' @ []) @ s) (\<lambda>g. g)"
      by (rule takes_seq_step)
    then have "takes (ropt (rseq [rlit ''public'', rplus re_s])) (''public'' @ sp5 @ [])
        ((''class'' @ []) @ s) (\<lambda>g. g)"
      unfolding ropt_def by (rule takes_Alt1)
    then have "takes (rseq [ropt (rseq [rlit ''public'', rplus re_s]), rlit ''class''])
        ((''public'' @ sp5 @ []) @ ''class'' @ []) s (\<lambda>g. g)"
      using c by (rule takes_seq_step)
    with Some show ?thesis by simp
  qed
qed

lemma takes_class_header:
  assumes "header_ok ph"
  shows "takes class_pattern (header_text ph) s (\<lambda>g. g[1 := Some (p_text ph)])"
proof (cases ph)
  case (PathHeader sp1 sp2 q1 t q2 sp3 sp4 pub)
  with assms have sp1: "list_all is_space sp1" and sp2: "list_all is_space sp2"
    and q1: "q1 \<in> set quotes" and t: "t \<noteq> []" "list_all (\<lambda>c. c \<notin> set quotes) t"
    and q2: "q2 \<in> set quotes" and sp3: "list_all is_space sp3" and sp4: "list_all is_space sp4"
    and pub: "case pub of None \<Rightarrow> True | Some sp5 \<Rightarrow> sp5 \<noteq> [] \<and> list_all is_space sp5"
    by simp_all
  let ?r11 = "[ropt (rseq [rlit ''public'', rplus re_s]), rlit ''class'']"
  let ?r10 = "rstar re_s # ?r11"
  let ?r9 = "rchr CHR '')'' # ?r10"
  let ?r8 = "rstar re_s # ?r9"
  let ?r7 = "any_of quotes # ?r8"
  let ?r6 = "Cap 1 (rplus (none_of quotes)) # ?r7"
  let ?r5 = "any_of quotes # ?r6"
  let ?r4 = "rstar re_s # ?r5"
  let ?r3 = "rchr CHR ''('' # ?r4"
  let ?r2 = "rstar re_s # ?r3"
  let ?t11 = "(case pub of None \<Rightarrow> [] | Some sp5 \<Rightarrow> ''public'' @ sp5) @ ''class''"
  let ?t10 = "sp4 @ ?t11"
  let ?t9 = "'')'' @ ?t10"
  let ?t8 = "sp3 @ ?t9"
  let ?t7 = "[q2] @ ?t8"
  let ?t6 = "t @ ?t7"
  let ?t5 = "[q1] @ ?t6"
  let ?t4 = "sp2 @ ?t5"
  let ?t3 = "''('' @ ?t4"
  let ?t2 = "sp1 @ ?t3"
  have 11: "takes (rseq ?r11) ?t11 s (\<lambda>g. g)"
    using pub by (rule takes_public_class)
  have "stops is_space (?t11 @ s)"
    by (cases pub) (simp_all add: is_space_def)
  then have "takes (rstar re_s) sp4 (?t11 @ s) (\<lambda>g. g)"
    unfolding re_s_def using sp4 by (intro takes_star_run) simp_all
  then have 10: "takes (rseq ?r10) ?t10 s (\<lambda>g. g)"
    using 11 by (rule takes_seq_step)
  have "takes (rchr CHR '')'') '')'' (?t10 @ s) (\<lambda>g. g)"
    by (rule takes_chr)
  then have 9: "takes (rseq ?r9) ?t9 s (\<lambda>g. g)"
    using 10 by (rule takes_seq_step)
  have "stops is_space (?t9 @ s)"
    by (simp add: is_space_def)
  then have "takes (rstar re_s) sp3 (?t9 @ s) (\<lambda>g. g)"
    unfolding re_s_def using sp3 by (intro takes_star_run) simp_all
  then have 8: "takes (rseq ?r8) ?t8 s (\<lambda>g. g)"
    using 9 by (rule takes_seq_step)
  have "takes (any_of quotes) [q2] (?t8 @ s) (\<lambda>g. g)"
    unfolding any_of_def using q2 by (intro takes_Sym)
  then have 7: "takes (rseq ?r7) ?t7 s (\<lambda>g. g)"
    using 8 by (rule takes_seq_step)
  have "stops (\<lambda>x. x \<notin> set quotes) (?t7 @ s)"
    using q2 by simp
  then have "takes (rplus (none_of quotes)) t (?t7 @ s) (\<lambda>g. g)"
    unfolding none_of_def using t by (intro takes_plus_run) simp_all
  then have "takes (Cap 1 (rplus (none_of quotes))) t (?t7 @ s) (\<lambda>g. g[1 := Some t])"
    by (rule takes_Cap)
  then have 6: "takes (rseq ?r6) ?t6 s (\<lambda>g. g[1 := Some t])"
    using 7 by (rule takes_seq_cap)
  have "takes (any_of quotes) [q1] (?t6 @ s) (\<lambda>g. g)"
    unfolding any_of_def using q1 by (intro takes_Sym)
  then have 5: "takes (rseq ?r5) ?t5 s (\<lambda>g. g[1 := Some t])"
    using 6 by (rule takes_seq_step)
  have "stops is_space (?t5 @ s)"
    using q1 by (auto simp: quotes_def is_space_def)
  then have "takes (rstar re_s) sp2 (?t5 @ s) (\<lambda>g. g)"
    unfolding re_s_def using sp2 by (intro takes_star_run) simp_all
  then have 4: "takes (rseq ?r4) ?t4 s (\<lambda>g. g[1 := Some t])"
    using 5 by (rule takes_seq_step)
  have "takes (rchr CHR ''('') ''('' (?t4 @ s) (\<lambda>g. g)"
    by (rule takes_chr)
  then have 3: "takes (rseq ?r3) ?t3 s (\<lambda>g. g[1 := Some t])"
    using 4 by (rule takes_seq_step)
  have "stops is_space (?t3 @ s)"
    by (simp add: is_space_def)
  then have "takes (rstar re_s) sp1 (?t3 @ s) (\<lambda>g. g)"
    unfolding re_s_def using sp1 by (intro takes_star_run) simp_all
  then have 2: "takes (rseq ?r2) ?t2 s (\<lambda>g. g[1 := Some t])"
    using 3 by (rule takes_seq_step)
  have "takes (rlit ''@Path'') ''@Path'' (?t2 @ s) (\<lambda>g. g)"
    by (rule takes_lit)
  then have "takes class_pattern (''@Path'' @ ?t2) s (\<lambda>g. g[1 := Some t])"
    unfolding class_pattern_def using 2 by (rule takes_seq_step)
  with PathHeader show ?thesis
    by simp
qed

lemma extract_class_path_header:
  assumes "header_ok ph" and "no_match_in class_pattern 1 pre (header_text ph @ body)"
  shows "extract_class_path (pre @ header_text ph @ body) = Some (p_text ph)"
proof -
  let ?m = "\<lparr>m_start = 0 + length pre, m_end = 0 + length pre + length (header_text ph),
             m_groups = ((replicate (Suc 1) None)[1 := Some (p_text ph)])
                          [0 := Some (header_text ph)]\<rparr>"
  have "match_at class_pattern 1 (0 + length pre) (header_text ph @ body) = Some ?m"
    using takes_class_header [OF assms(1)] by (rule takes_match_at)
  with assms(2) have "search_from class_pattern 1 0 (pre @ header_text ph @ body) = Some ?m"
    by (rule search_from_first)
  then show ?thesis
    by (simp add: extract_class_path_def re_search_def group_def)
qed

section \<open>The properties\<close>

subsection \<open>C1: joining a base path and a method path\<close>

text \<open>
  Claim C1. \<^verbatim>\<open>_combine_paths\<close> returns the method path (\<^verbatim>\<open>/\<close> when it is empty) when there is no base
  path or an empty one, and the base path when the method path is empty. When both are non-empty
  it returns the base path without its trailing slashes, one slash, and the method path without its
  leading slashes, so that exactly one slash stands at the join; \<^verbatim>\<open>/a/\<close> and \<^verbatim>\<open>/b\<close> give \<^verbatim>\<open>/a/b\<close>. The
  slashes at the end of the method path are kept: \<^verbatim>\<open>/a\<close> and \<^verbatim>\<open>b/\<close> give \<^verbatim>\<open>/a/b/\<close>.
\<close>
theorem combine_paths_join:
  "(base_path = None \<or> base_path = Some [] \<longrightarrow>
      combine_paths base_path method_path = (if method_path = [] then ''/'' else method_path)) \<and>
   (bp \<noteq> [] \<longrightarrow> combine_paths (Some bp) [] = bp) \<and>
   (b' @ replicate i CHR ''/'' \<noteq> [] \<and> replicate j CHR ''/'' @ m' \<noteq> [] \<and>
    (b' = [] \<or> last b' \<noteq> CHR ''/'') \<and> (m' = [] \<or> hd m' \<noteq> CHR ''/'') \<longrightarrow>
      combine_paths (Some (b' @ replicate i CHR ''/'')) (replicate j CHR ''/'' @ m') = b' @ ''/'' @ m') \<and>
   combine_paths (Some ''/a/'') ''/b'' = ''/a/b'' \<and>
   combine_paths (Some ''/a'') ''b/'' = ''/a/b/''"
proof (intro conjI impI)
  assume "base_path = None \<or> base_path = Some []"
  then show "combine_paths base_path method_path = (if method_path = [] then ''/'' else method_path)"
    by (auto simp: combine_paths_def)
next
  assume "bp \<noteq> []"
  then show "combine_paths (Some bp) [] = bp"
    by (simp add: combine_paths_def)
next
  assume h: "b' @ replicate i CHR ''/'' \<noteq> [] \<and> replicate j CHR ''/'' @ m' \<noteq> [] \<and>
    (b' = [] \<or> last b' \<noteq> CHR ''/'') \<and> (m' = [] \<or> hd m' \<noteq> CHR ''/'')"
  then have r: "rstrip CHR ''/'' (b' @ replicate i CHR ''/'') = b'"
    and l: "lstrip CHR ''/'' (replicate j CHR ''/'' @ m') = m'"
    by (simp_all add: rstrip_replicate lstrip_replicate)
  from h have "combine_paths (Some (b' @ replicate i CHR ''/'')) (replicate j CHR ''/'' @ m') =
      rstrip CHR ''/'' (b' @ replicate i CHR ''/'') @ ''/'' @ lstrip CHR ''/'' (replicate j CHR ''/'' @ m')"
    by (intro combine_paths_nonempty) blast+
  then show "combine_paths (Some (b' @ replicate i CHR ''/'')) (replicate j CHR ''/'' @ m') = b' @ ''/'' @ m'"
    by (simp only: r l)
next
  show "combine_paths (Some ''/a/'') ''/b'' = ''/a/b''"
    by (simp add: combine_paths_def rstrip_def lstrip_def)
next
  show "combine_paths (Some ''/a'') ''b/'' = ''/a/b/''"
    by (simp add: combine_paths_def rstrip_def lstrip_def)
qed

text \<open>The four cases at sample paths.\<close>
theorem combine_paths_join_witness:
  "combine_paths None [] = ''/'' \<and>
   combine_paths (Some []) ''items'' = ''items'' \<and>
   combine_paths (Some ''/api'') [] = ''/api'' \<and>
   combine_paths (Some ''/api//'') ''//v1/items/'' = ''/api/v1/items/''"
proof -
  have a: "combine_paths None [] = ''/''"
    using combine_paths_join [of None "[]"] by simp
  have b: "combine_paths (Some []) ''items'' = ''items''"
    using combine_paths_join [of "Some []" "''items''"] by simp
  have c: "combine_paths (Some ''/api'') [] = ''/api''"
    using combine_paths_join [of _ _ "''/api''"] by simp
  have d: "combine_paths (Some ''/api//'') ''//v1/items/'' = ''/api/v1/items/''"
    using combine_paths_join [of _ _ _ "''/api''" 2 2 "''v1/items/''"]
    by (simp add: numeral_2_eq_2)
  from a b c d show ?thesis by simp
qed

text \<open>For the base path \<^verbatim>\<open>/a\<close> and the method path \<^verbatim>\<open>b/\<close> the result is not \<^verbatim>\<open>/a/b\<close>.\<close>
theorem combine_paths_trailing_slash_kept:
  "combine_paths (Some ''/a'') ''b/'' \<noteq> ''/a/b''"
  by (simp add: combine_paths_def rstrip_def lstrip_def)

subsection \<open>C2: the annotation block before the signature\<close>

text \<open>
  Claim C2. Let a method signature be preceded by one or more annotation blocks, the last of them
  closed by white space or by its argument list, and let no match of the method pattern start in
  the text before them. Then the first match holds the whole run of blocks and the signature, its
  group 1 is the last block alone and its group 2 is the name of the method; the endpoint of the
  signature is built from the last block alone, which gives the HTTP method, the path and the media
  types. If the last block holds no HTTP-method marker, the signature is not emitted as an
  endpoint, whatever the blocks before it are. If the last block has no argument list, the path of
  the endpoint is the base path alone and both media types are the default, whatever path or media
  types the blocks before it declare.
\<close>
theorem only_last_annotation_is_consulted:
  assumes "list_all ann_ok bs" and "bs \<noteq> []" and "ann_closed (last bs)" and "sig_ok sg"
    and "no_match_in method_pattern 2 pre (anns_text bs @ sig_text sg @ rest)"
  shows "map m_groups (re_finditer method_pattern 2 (pre @ anns_text bs @ sig_text sg @ rest)) =
           [Some (anns_text bs @ sig_text sg), Some (ann_text (last bs)), Some (s_name sg)] #
           map m_groups (re_finditer method_pattern 2 rest) \<and>
         extract_endpoints (pre @ anns_text bs @ sig_text sg @ rest) base_path =
           Inr (endpoint_for base_path (ann_text (last bs)) (s_name sg)
                  (anns_text bs @ sig_text sg) @
                found_endpoints rest base_path) \<and>
         ((\<forall>a\<in>set http_markers. \<not> str_contains (ann_text (last bs)) a) \<longrightarrow>
            extract_endpoints (pre @ anns_text bs @ sig_text sg @ rest) base_path =
              Inr (found_endpoints rest base_path)) \<and>
         (a_args (last bs) = None \<longrightarrow>
            (\<forall>e\<in>set (endpoint_for base_path (ann_text (last bs)) (s_name sg)
                         (anns_text bs @ sig_text sg)).
               ep_path e = combine_paths base_path [] \<and>
               ep_consumes e = [''application/json''] \<and>
               ep_produces e = [''application/json'']))"
proof (intro conjI impI)
  show "map m_groups (re_finditer method_pattern 2 (pre @ anns_text bs @ sig_text sg @ rest)) =
           [Some (anns_text bs @ sig_text sg), Some (ann_text (last bs)), Some (s_name sg)] #
           map m_groups (re_finditer method_pattern 2 rest)"
    using assms by (rule finditer_groups_method)
next
  have f: "found_endpoints (pre @ anns_text bs @ sig_text sg @ rest) base_path =
     endpoint_for base_path (ann_text (last bs)) (s_name sg) (anns_text bs @ sig_text sg)
     @ found_endpoints rest base_path"
    using assms by (rule found_endpoints_method)
  then show e: "extract_endpoints (pre @ anns_text bs @ sig_text sg @ rest) base_path =
           Inr (endpoint_for base_path (ann_text (last bs)) (s_name sg)
                  (anns_text bs @ sig_text sg) @
                found_endpoints rest base_path)"
    by (simp only: extract_endpoints_found)
  assume "\<forall>a\<in>set http_markers. \<not> str_contains (ann_text (last bs)) a"
  then have "extract_http_method (ann_text (last bs)) = None"
    by (simp only: extract_http_method_None)
  then have "endpoint_for base_path (ann_text (last bs)) (s_name sg) (anns_text bs @ sig_text sg) = []"
    by (simp add: endpoint_for_def)
  with e show "extract_endpoints (pre @ anns_text bs @ sig_text sg @ rest) base_path =
              Inr (found_endpoints rest base_path)"
    by simp
next
  assume none: "a_args (last bs) = None"
  from assms(1,2) have "ann_ok (last bs)"
    by (simp add: list_all_iff)
  then have np: "CHR ''('' \<notin> set (ann_text (last bs))"
    using none by (rule ann_text_no_args_no_paren)
  have p: "extract_method_path (ann_text (last bs)) = []"
    using np by (rule extract_method_path_no_paren)
  have t: "extract_media_types (ann_text (last bs)) t = []" for t
    using np by (rule extract_media_types_no_paren)
  show "\<forall>e\<in>set (endpoint_for base_path (ann_text (last bs)) (s_name sg)
                         (anns_text bs @ sig_text sg)).
               ep_path e = combine_paths base_path [] \<and>
               ep_consumes e = [''application/json''] \<and>
               ep_produces e = [''application/json'']"
    unfolding endpoint_for_def p t
    by (cases "extract_http_method (ann_text (last bs))") (simp_all add: or_json_def)
qed

text \<open>
  \<^verbatim>\<open>@GET\<close> followed by \<^verbatim>\<open>@Path("/x")\<close> is not emitted; a path and a media type declared before a closing
  \<^verbatim>\<open>@GET\<close> are ignored.
\<close>
theorem only_last_annotation_witness:
  "extract_endpoints ''@GET @Path(\"/x\") public void foo()'' (Some ''/api'') = Inr [] \<and>
   map m_groups (re_finditer method_pattern 2 ''@GET @Path(\"/x\") public void foo()'') =
     [[Some ''@GET @Path(\"/x\") public void foo()'', Some ''@Path(\"/x\") '', Some ''foo'']] \<and>
   extract_endpoints ''@Path(\"/x\") @Consumes(\"text/plain\") @GET public void foo()''
       (Some ''/api'') =
     Inr [\<lparr>ep_path = ''/api'', ep_method = GET, ep_operation_id = ''foo'', ep_summary = [],
           ep_description = [], ep_parameters = [], ep_request_body = None, ep_responses = [],
           ep_consumes = [''application/json''], ep_produces = [''application/json''],
           ep_tags = []\<rparr>]"
proof -
  let ?get = "Annotation ''GET'' [] None '' ''"
  let ?path = "Annotation ''Path'' [] (Some ''\"/x\"'') '' ''"
  let ?consumes = "Annotation ''Consumes'' [] (Some ''\"text/plain\"'') '' ''"
  let ?sg = "Signature '' '' ''void'' '' '' ''foo'' [] []"
  have sg: "sig_ok ?sg" by code_simp
  have rest: "found_endpoints [] (Some ''/api'') = []"
    "map m_groups (re_finditer method_pattern 2 []) = []" by code_simp+
  have a1: "list_all ann_ok [?get, ?path]" "[?get, ?path] \<noteq> []" "ann_closed (last [?get, ?path])"
    "no_match_in method_pattern 2 [] (anns_text [?get, ?path] @ sig_text ?sg @ [])"
    by code_simp+
  have t1: "[] @ anns_text [?get, ?path] @ sig_text ?sg @ [] = ''@GET @Path(\"/x\") public void foo()''"
    "anns_text [?get, ?path] @ sig_text ?sg = ''@GET @Path(\"/x\") public void foo()''"
    "ann_text (last [?get, ?path]) = ''@Path(\"/x\") ''" "s_name ?sg = ''foo''"
    by code_simp+
  have m1: "\<forall>a\<in>set http_markers. \<not> str_contains (ann_text (last [?get, ?path])) a"
    by code_simp
  note c1 = only_last_annotation_is_consulted [OF a1(1-3) sg a1(4), of "Some ''/api''"]
  from c1 m1 have "extract_endpoints ([] @ anns_text [?get, ?path] @ sig_text ?sg @ [])
      (Some ''/api'') = Inr (found_endpoints [] (Some ''/api''))"
    by blast
  then have r1: "extract_endpoints ''@GET @Path(\"/x\") public void foo()'' (Some ''/api'') = Inr []"
    by (simp only: t1 rest)
  from c1 have "map m_groups (re_finditer method_pattern 2
        ([] @ anns_text [?get, ?path] @ sig_text ?sg @ [])) =
      [Some (anns_text [?get, ?path] @ sig_text ?sg), Some (ann_text (last [?get, ?path])),
       Some (s_name ?sg)] # map m_groups (re_finditer method_pattern 2 [])"
    by blast
  then have r2: "map m_groups (re_finditer method_pattern 2 ''@GET @Path(\"/x\") public void foo()'') =
     [[Some ''@GET @Path(\"/x\") public void foo()'', Some ''@Path(\"/x\") '', Some ''foo'']]"
    by (simp only: t1 rest)
  have a2: "list_all ann_ok [?path, ?consumes, ?get]" "[?path, ?consumes, ?get] \<noteq> []"
    "ann_closed (last [?path, ?consumes, ?get])"
    "no_match_in method_pattern 2 [] (anns_text [?path, ?consumes, ?get] @ sig_text ?sg @ [])"
    by code_simp+
  have t2: "[] @ anns_text [?path, ?consumes, ?get] @ sig_text ?sg @ [] =
      ''@Path(\"/x\") @Consumes(\"text/plain\") @GET public void foo()''"
    by code_simp
  have e2: "endpoint_for (Some ''/api'') (ann_text (last [?path, ?consumes, ?get])) (s_name ?sg)
      (anns_text [?path, ?consumes, ?get] @ sig_text ?sg) =
     [\<lparr>ep_path = ''/api'', ep_method = GET, ep_operation_id = ''foo'', ep_summary = [],
           ep_description = [], ep_parameters = [], ep_request_body = None, ep_responses = [],
           ep_consumes = [''application/json''], ep_produces = [''application/json''],
           ep_tags = []\<rparr>]"
    by code_simp
  note c2 = only_last_annotation_is_consulted [OF a2(1-3) sg a2(4), of "Some ''/api''"]
  from c2 have "extract_endpoints ([] @ anns_text [?path, ?consumes, ?get] @ sig_text ?sg @ [])
      (Some ''/api'') =
      Inr (endpoint_for (Some ''/api'') (ann_text (last [?path, ?consumes, ?get])) (s_name ?sg)
             (anns_text [?path, ?consumes, ?get] @ sig_text ?sg) @
           found_endpoints [] (Some ''/api''))"
    by blast
  then have r3: "extract_endpoints ''@Path(\"/x\") @Consumes(\"text/plain\") @GET public void foo()''
       (Some ''/api'') =
     Inr [\<lparr>ep_path = ''/api'', ep_method = GET, ep_operation_id = ''foo'', ep_summary = [],
           ep_description = [], ep_parameters = [], ep_request_body = None, ep_responses = [],
           ep_consumes = [''application/json''], ep_produces = [''application/json''],
           ep_tags = []\<rparr>]"
    by (simp only: t2 e2 rest) simp
  from r1 r2 r3 show ?thesis by (intro conjI)
qed

text \<open>
  The marker is looked for as a part of the text of the last block: a method whose \<^verbatim>\<open>@GET\<close> is
  followed by a further annotation is emitted when that annotation holds a marker in its argument.
\<close>
theorem marker_inside_last_annotation_is_emitted:
  "extract_endpoints ''@GET @Path(\"/@GET\") public void f()'' None =
     Inr [\<lparr>ep_path = ''/@GET'', ep_method = GET, ep_operation_id = ''f'', ep_summary = [],
           ep_description = [], ep_parameters = [], ep_request_body = None, ep_responses = [],
           ep_consumes = [''application/json''], ep_produces = [''application/json''],
           ep_tags = []\<rparr>]"
  by code_simp

subsection \<open>C3: a repository with one resource class\<close>

text \<open>
  Claim C3. Let exactly one file of the repository qualify as a resource. Let its first match of
  the class pattern be a path annotation for \<^verbatim>\<open>/users\<close> directly followed by \<^verbatim>\<open>class\<close> or
  \<^verbatim>\<open>public class\<close>, and let its only match of the method pattern be one method annotated only with
  \<^verbatim>\<open>@GET\<close> and written \<^verbatim>\<open>public\<close>, a return type of one word, a name and an argument list that holds
  at most white space. Then the analysis yields exactly one resource, with base path \<^verbatim>\<open>/users\<close>
  and exactly one endpoint: \<^verbatim>\<open>GET /users\<close>, with the name of the method as operation id, no
  parameters, and \<^verbatim>\<open>application/json\<close> as the only media type consumed and produced.
\<close>
theorem single_get_method_end_to_end:
  assumes files: "find_java_files fs (JaxRSAnalyzer_init rp) = before @ [(p, Inr content)] @ after"
    and others: "list_all (\<lambda>f. \<not> qualifies f) (before @ after)"
    and content: "content = lead @ header_text ph @ body @
                    ann_text (Annotation ''GET'' sp None tr) @ sig_text sg @ rest"
    and header: "header_ok ph" "p_text ph = ''/users''"
                "no_match_in class_pattern 1 lead
                   (header_text ph @ body @ ann_text (Annotation ''GET'' sp None tr) @
                    sig_text sg @ rest)"
    and spaces: "list_all is_space sp" "list_all is_space tr" "sp @ tr \<noteq> []"
    and sg: "sig_ok sg" "list_all is_space (s_args sg)"
    and single: "no_match_in method_pattern 2 (lead @ header_text ph @ body)
                   (ann_text (Annotation ''GET'' sp None tr) @ sig_text sg @ rest)"
                "re_finditer method_pattern 2 rest = []"
  shows "snd (snd (analyze fs (JaxRSAnalyzer_init rp))) =
     [\<lparr>res_class_name = extract_class_name content,
       res_base_path = ''/users'',
       res_endpoints =
         [\<lparr>ep_path = ''/users'', ep_method = GET, ep_operation_id = s_name sg,
           ep_summary = [], ep_description = [], ep_parameters = [],
           ep_request_body = None, ep_responses = [],
           ep_consumes = [''application/json''], ep_produces = [''application/json''],
           ep_tags = []\<rparr>],
       res_description = []\<rparr>]"
proof -
  have "extract_class_path (lead @ header_text ph @ body @
      ann_text (Annotation ''GET'' sp None tr) @ sig_text sg @ rest) = Some (p_text ph)"
    using header(1,3) by (rule extract_class_path_header)
  then have class_path: "extract_class_path content = Some ''/users''"
    by (simp only: content header(2))
  have shape: "content = (lead @ header_text ph @ body) @
      ann_text (Annotation ''GET'' sp None tr) @ sig_text sg @ rest"
    by (simp only: content append_assoc)
  show ?thesis
    using files others shape spaces sg class_path single by (rule single_get_method_found)
qed

text \<open>The sample repository holds such a file, and three files that do not qualify.\<close>
theorem single_get_method_witness:
  "snd (snd (analyze users_repo (JaxRSAnalyzer_init ''repo''))) = [users_resource]"
proof -
  let ?ph = "PathHeader [] [] CHR 0x22 ''/users'' CHR 0x22 [] ''\<newline>'' (Some '' '')"
  let ?body = "'' UserResource {\<newline>    ''"
  let ?sg = "Signature '' '' ''String'' '' '' ''list'' [] []"
  let ?rest = "'' {\<newline>        return null;\<newline>    }\<newline>}\<newline>''"
  let ?tr = "''\<newline>    ''"
  have files: "find_java_files users_repo (JaxRSAnalyzer_init ''repo'') =
      [(''repo/src/Broken.java'', Inl (OSError ''Permission denied'')),
       (''repo/src/Util.java'', Inr ''public class Util { }'')] @
      [(''repo/src/UserResource.java'', Inr users_java)] @ []"
    by code_simp
  have others: "list_all (\<lambda>f. \<not> qualifies f)
      ([(''repo/src/Broken.java'', Inl (OSError ''Permission denied'')),
        (''repo/src/Util.java'', Inr ''public class Util { }'')] @ [])"
    by code_simp
  have content: "users_java = [] @ header_text ?ph @ ?body @
      ann_text (Annotation ''GET'' [] None ?tr) @ sig_text ?sg @ ?rest"
    by code_simp
  have header: "header_ok ?ph" "p_text ?ph = ''/users''"
    "no_match_in class_pattern 1 []
       (header_text ?ph @ ?body @ ann_text (Annotation ''GET'' [] None ?tr) @ sig_text ?sg @
        ?rest)"
    by code_simp+
  have spaces: "list_all is_space []" "list_all is_space ?tr" "[] @ ?tr \<noteq> []"
    by code_simp+
  have sg: "sig_ok ?sg" "list_all is_space (s_args ?sg)"
    by code_simp+
  have single: "no_match_in method_pattern 2 ([] @ header_text ?ph @ ?body)
      (ann_text (Annotation ''GET'' [] None ?tr) @ sig_text ?sg @ ?rest)"
    "re_finditer method_pattern 2 ?rest = []"
    by code_simp+
  have name: "extract_class_name users_java = ''UserResource''"
    by code_simp
  show ?thesis
    using single_get_method_end_to_end [OF files others content header spaces sg single]
    by (simp add: name users_resource_def users_endpoint_def)
qed

text \<open>
  With the return type \<^verbatim>\<open>List<String>\<close> the method pattern does not match: the file qualifies and
  its class path is \<^verbatim>\<open>/users\<close>, but the analysis yields no resource. With \<^verbatim>\<open>public abstract class\<close>
  the class path is not found: the resource has no base path and the path of its endpoint is
  \<^verbatim>\<open>/\<close>.
\<close>
theorem other_declarations_are_not_found:
  "is_jaxrs_resource generic_java \<and>
   extract_class_path generic_java = Some ''/users'' \<and>
   snd (snd (analyze generic_repo (JaxRSAnalyzer_init ''repo''))) = [] \<and>
   snd (snd (analyze abstract_repo (JaxRSAnalyzer_init ''repo''))) =
     [\<lparr>res_class_name = ''Unknown'', res_base_path = [],
       res_endpoints = [sample_endpoint ''/'' GET ''list''], res_description = []\<rparr>]"
  by (intro conjI; code_simp)

subsection \<open>C4: signatures without an HTTP-method annotation\<close>

text \<open>
  Claim C4. A match of the method pattern whose annotation text holds none of the seven
  HTTP-method markers contributes no endpoint and raises no error: extraction returns what it
  returns over the matches that hold a marker, and it always returns a list of endpoints.
\<close>
theorem unmarked_signature_is_skipped:
  "((\<forall>a\<in>set http_markers. \<not> str_contains (annotations_of m) a) \<longrightarrow>
      endpoint_of_match content base_path m = Inr []) \<and>
   extract_endpoints content base_path =
     for_append (endpoint_of_match content base_path)
       (filter (\<lambda>m. \<exists>a\<in>set http_markers. str_contains (annotations_of m) a)
          (re_finditer method_pattern 2 content)) \<and>
   (\<exists>endpoints. extract_endpoints content base_path = Inr endpoints)"
proof (intro conjI impI)
  assume "\<forall>a\<in>set http_markers. \<not> str_contains (annotations_of m) a"
  then show "endpoint_of_match content base_path m = Inr []"
    by (rule endpoint_of_match_skip)
next
  have "for_append (endpoint_of_match content base_path)
       (filter (\<lambda>m. \<exists>a\<in>set http_markers. str_contains (annotations_of m) a)
          (re_finditer method_pattern 2 content)) =
     for_append (endpoint_of_match content base_path) (re_finditer method_pattern 2 content)"
    by (rule for_append_filter) (simp add: endpoint_of_match_skip)
  then show "extract_endpoints content base_path =
     for_append (endpoint_of_match content base_path)
       (filter (\<lambda>m. \<exists>a\<in>set http_markers. str_contains (annotations_of m) a)
          (re_finditer method_pattern 2 content))"
    by (simp add: extract_endpoints_def)
next
  show "\<exists>endpoints. extract_endpoints content base_path = Inr endpoints"
    using extract_endpoints_found by blast
qed

text \<open>A public method with a path annotation only is matched and skipped.\<close>
theorem unmarked_signature_witness:
  "re_finditer method_pattern 2 helper_java = [helper_match] \<and>
   endpoint_of_match helper_java None helper_match = Inr [] \<and>
   extract_endpoints helper_java None = Inr []"
proof -
  have f: "re_finditer method_pattern 2 helper_java = [helper_match]"
    by code_simp
  have h: "\<forall>a\<in>set http_markers. \<not> str_contains (annotations_of helper_match) a"
    by code_simp
  note c = unmarked_signature_is_skipped [of helper_match helper_java None]
  from c h have e: "endpoint_of_match helper_java None helper_match = Inr []"
    by blast
  from c have "extract_endpoints helper_java None =
     for_append (endpoint_of_match helper_java None)
       (filter (\<lambda>m. \<exists>a\<in>set http_markers. str_contains (annotations_of m) a)
          (re_finditer method_pattern 2 helper_java))"
    by blast
  then have x: "extract_endpoints helper_java None = Inr []"
    using h by (simp only: f filter.simps) simp
  from f e x show ?thesis by (intro conjI)
qed

subsection \<open>C5: required parameters\<close>

text \<open>
  Claim C5. Parameter extraction always returns a list, and in it every parameter located in the
  path is required and every parameter located in the query, a header or a cookie is not; the same
  holds for every parameter of every endpoint that endpoint extraction returns.
\<close>
theorem path_parameters_are_required:
  "(\<exists>ps. extract_parameters method_signature file_text = Inr ps \<and>
         (\<forall>p\<in>set ps. required_iff_path p)) \<and>
   (\<exists>endpoints. extract_endpoints content base_path = Inr endpoints \<and>
      (\<forall>e\<in>set endpoints. \<forall>p\<in>set (ep_parameters e). required_iff_path p))"
proof (intro conjI impI)
  have "\<forall>p\<in>set (found_parameters method_signature). required_iff_path p"
    using found_parameters_required by blast
  then show "\<exists>ps. extract_parameters method_signature file_text = Inr ps \<and>
         (\<forall>p\<in>set ps. required_iff_path p)"
    using extract_parameters_found by blast
next
  have "\<forall>e\<in>set (found_endpoints content base_path). \<forall>p\<in>set (ep_parameters e).
      required_iff_path p"
  proof (intro ballI)
    fix e p
    assume "e \<in> set (found_endpoints content base_path)" and p: "p \<in> set (ep_parameters e)"
    then obtain u where "ep_parameters e = found_parameters u"
      using found_endpoints_member [of e content base_path] by auto
    with p show "required_iff_path p"
      using found_parameters_required [of p u] by simp
  qed
  then show "\<exists>endpoints. extract_endpoints content base_path = Inr endpoints \<and>
      (\<forall>e\<in>set endpoints. \<forall>p\<in>set (ep_parameters e). required_iff_path p)"
    using extract_endpoints_found by blast
qed

text \<open>A path parameter and a query parameter, and an endpoint with a query parameter.\<close>
theorem path_parameters_witness:
  "extract_parameters ''@PathParam(\"id\") long id, @QueryParam(\"q\") String q'' [] =
     Inr [id_param, q_param] \<and>
   param_in id_param = AStr ''path'' \<and> param_required id_param \<and>
   param_in q_param = AStr ''query'' \<and> \<not> param_required q_param \<and>
   extract_endpoints ''@QueryParam(\"@GET\") public String x()'' None =
     Inr [(sample_endpoint ''/'' GET ''x'')
            \<lparr>ep_parameters := [q_param\<lparr>param_name := ''@GET''\<rparr>]\<rparr>] \<and>
   \<not> param_required (q_param\<lparr>param_name := ''@GET''\<rparr>)"
proof -
  let ?s = "''@PathParam(\"id\") long id, @QueryParam(\"q\") String q''"
  let ?c = "''@QueryParam(\"@GET\") public String x()''"
  let ?e = "(sample_endpoint ''/'' GET ''x'')\<lparr>ep_parameters := [q_param\<lparr>param_name := ''@GET''\<rparr>]\<rparr>"
  have v: "extract_parameters ?s [] = Inr [id_param, q_param]"
    by code_simp
  have w: "extract_endpoints ?c None = Inr [?e]"
    by code_simp
  note c = path_parameters_are_required [of ?s "[]" ?c None]
  from c v have "required_iff_path id_param" and "required_iff_path q_param"
    by auto
  moreover from c w have "required_iff_path (q_param\<lparr>param_name := ''@GET''\<rparr>)"
    by auto
  moreover have "param_in id_param = AStr ''path''" and "param_in q_param = AStr ''query''"
    by (simp_all add: id_param_def q_param_def)
  ultimately show ?thesis
    using v w by (simp add: required_iff_path_def)
qed

subsection \<open>C6: default media types\<close>

text \<open>
  Claim C6. When no consumes media type is extracted for an endpoint, its consumes list is
  exactly \<^verbatim>\<open>application/json\<close>, and likewise for its produces list; no endpoint returned by endpoint
  extraction has an empty consumes or produces list.
\<close>
theorem media_types_default_to_json:
  "(endpoint_of_match content base_path m = Inr [e] \<longrightarrow>
      (extract_media_types (annotations_of m) ''@Consumes'' = [] \<longrightarrow>
         ep_consumes e = [''application/json'']) \<and>
      (extract_media_types (annotations_of m) ''@Produces'' = [] \<longrightarrow>
         ep_produces e = [''application/json''])) \<and>
   (\<exists>endpoints. extract_endpoints content base_path = Inr endpoints \<and>
      (\<forall>e\<in>set endpoints. ep_consumes e \<noteq> [] \<and> ep_produces e \<noteq> []))"
proof (intro conjI impI)
  have "\<forall>e\<in>set (found_endpoints content base_path). ep_consumes e \<noteq> [] \<and> ep_produces e \<noteq> []"
  proof
    fix e
    assume "e \<in> set (found_endpoints content base_path)"
    then obtain a where "ep_consumes e = or_json (extract_media_types a ''@Consumes'')"
      and "ep_produces e = or_json (extract_media_types a ''@Produces'')"
      using found_endpoints_member [of e content base_path] by auto
    then show "ep_consumes e \<noteq> [] \<and> ep_produces e \<noteq> []"
      by (simp add: or_json_nonempty)
  qed
  then show "\<exists>endpoints. extract_endpoints content base_path = Inr endpoints \<and>
      (\<forall>e\<in>set endpoints. ep_consumes e \<noteq> [] \<and> ep_produces e \<noteq> [])"
    using extract_endpoints_found by blast
next
  assume a: "endpoint_of_match content base_path m = Inr [e]"
    and b: "extract_media_types (annotations_of m) ''@Consumes'' = []"
  from a have "endpoints_of base_path m = [e]"
    by (simp add: endpoint_of_match_total)
  then show "ep_consumes e = [''application/json'']"
    using b unfolding endpoints_of_def endpoint_for_def
    by (cases "extract_http_method (annotations_of m)") (auto simp: or_json_def)
next
  assume a: "endpoint_of_match content base_path m = Inr [e]"
    and b: "extract_media_types (annotations_of m) ''@Produces'' = []"
  from a have "endpoints_of base_path m = [e]"
    by (simp add: endpoint_of_match_total)
  then show "ep_produces e = [''application/json'']"
    using b unfolding endpoints_of_def endpoint_for_def
    by (cases "extract_http_method (annotations_of m)") (auto simp: or_json_def)
qed

text \<open>An endpoint whose last annotation block declares no media type.\<close>
theorem media_types_witness:
  "endpoint_of_match produces_java None produces_match = Inr [produces_endpoint] \<and>
   extract_endpoints produces_java None = Inr [produces_endpoint] \<and>
   ep_consumes produces_endpoint = [''application/json''] \<and>
   ep_produces produces_endpoint = [''application/json'']"
proof -
  have m: "endpoint_of_match produces_java None produces_match = Inr [produces_endpoint]"
    by code_simp
  have x: "extract_endpoints produces_java None = Inr [produces_endpoint]"
    by code_simp
  have t: "extract_media_types (annotations_of produces_match) ''@Consumes'' = []"
    "extract_media_types (annotations_of produces_match) ''@Produces'' = []"
    by code_simp+
  note c = media_types_default_to_json [of produces_java None produces_match produces_endpoint]
  from c m t have "ep_consumes produces_endpoint = [''application/json'']"
    and "ep_produces produces_endpoint = [''application/json'']"
    by blast+
  with m x show ?thesis by (intro conjI)
qed

subsection \<open>C7: form parameters\<close>

text \<open>
  Claim C7. A form parameter (\<^verbatim>\<open>@FormParam\<close>, a quoted name, a type and a variable) is matched by
  the parameter pattern, with \<^verbatim>\<open>FormParam\<close> as its kind, and parameter extraction returns nothing for
  it; a match of kind \<^verbatim>\<open>FormParam\<close> adds no parameter. Every parameter that parameter extraction
  returns, and every parameter of every endpoint that endpoint extraction returns, is located in
  the path, the query, a header or a cookie, never in \<^verbatim>\<open>formData\<close>.
\<close>
theorem form_param_is_matched_but_not_collected:
  "(form_param_ok q1 nm q2 sp1 ty sp2 v \<longrightarrow>
      map m_groups (re_finditer param_pattern 4 (form_param_text q1 nm q2 sp1 ty sp2 v)) =
        [[Some (form_param_text q1 nm q2 sp1 ty sp2 v), Some ''FormParam'', Some nm, Some ty,
          Some v]] \<and>
      extract_parameters (form_param_text q1 nm q2 sp1 ty sp2 v) file_text = Inr []) \<and>
   (group_text m 1 = ''FormParam'' \<longrightarrow> param_of_match m = Inr []) \<and>
   (\<exists>ps. extract_parameters method_signature file_text = Inr ps \<and>
         (\<forall>p\<in>set ps. collected_location p)) \<and>
   (\<exists>endpoints. extract_endpoints content base_path = Inr endpoints \<and>
      (\<forall>e\<in>set endpoints. \<forall>p\<in>set (ep_parameters e). collected_location p))"
proof (intro conjI impI)
  assume ok: "form_param_ok q1 nm q2 sp1 ty sp2 v"
  then show g: "map m_groups (re_finditer param_pattern 4 (form_param_text q1 nm q2 sp1 ty sp2 v)) =
        [[Some (form_param_text q1 nm q2 sp1 ty sp2 v), Some ''FormParam'', Some nm, Some ty,
          Some v]]"
    by (rule finditer_form_param)
  then obtain m0 where m0: "re_finditer param_pattern 4 (form_param_text q1 nm q2 sp1 ty sp2 v) = [m0]"
    and "m_groups m0 = [Some (form_param_text q1 nm q2 sp1 ty sp2 v), Some ''FormParam'',
        Some nm, Some ty, Some v]"
    by auto
  then have "group_text m0 1 = ''FormParam''"
    by (simp add: group_text_def group_def)
  then have "param_of_match m0 = Inr []"
    by (rule param_of_match_form)
  then show "extract_parameters (form_param_text q1 nm q2 sp1 ty sp2 v) file_text = Inr []"
    by (simp add: extract_parameters_def m0)
next
  assume "group_text m 1 = ''FormParam''"
  then show "param_of_match m = Inr []"
    by (rule param_of_match_form)
next
  have "\<forall>p\<in>set (found_parameters method_signature). collected_location p"
    unfolding found_parameters_concat using params_of_location by auto
  then show "\<exists>ps. extract_parameters method_signature file_text = Inr ps \<and>
         (\<forall>p\<in>set ps. collected_location p)"
    using extract_parameters_found by blast
next
  have "\<forall>e\<in>set (found_endpoints content base_path). \<forall>p\<in>set (ep_parameters e).
      collected_location p"
  proof (intro ballI)
    fix e p
    assume "e \<in> set (found_endpoints content base_path)" and p: "p \<in> set (ep_parameters e)"
    then obtain u where "ep_parameters e = found_parameters u"
      using found_endpoints_member [of e content base_path] by auto
    with p show "collected_location p"
      unfolding found_parameters_concat using params_of_location by auto
  qed
  then show "\<exists>endpoints. extract_endpoints content base_path = Inr endpoints \<and>
      (\<forall>e\<in>set endpoints. \<forall>p\<in>set (ep_parameters e). collected_location p)"
    using extract_endpoints_found by blast
qed

text \<open>A form parameter alone, after a path parameter, and in the text of an endpoint.\<close>
theorem form_param_witness:
  "re_finditer param_pattern 4 ''@FormParam(\"f\") String f'' = [form_match] \<and>
   param_of_match form_match = Inr [] \<and>
   extract_parameters ''@FormParam(\"f\") String f'' [] = Inr [] \<and>
   extract_parameters ''@PathParam(\"id\") long id, @FormParam(\"f\") String f'' [] =
     Inr [id_param] \<and>
   param_in id_param = AStr ''path'' \<and>
   extract_endpoints ''@FormParam(\"@POST\") public void add()'' None =
     Inr [form_endpoint] \<and>
   ep_parameters form_endpoint = []"
proof -
  let ?s = "''@PathParam(\"id\") long id, @FormParam(\"f\") String f''"
  let ?c = "''@FormParam(\"@POST\") public void add()''"
  have ok: "form_param_ok CHR 0x22 ''f'' CHR 0x22 '' '' ''String'' '' '' ''f''"
    by code_simp
  have t: "form_param_text CHR 0x22 ''f'' CHR 0x22 '' '' ''String'' '' '' ''f'' =
      ''@FormParam(\"f\") String f''"
    by code_simp
  have g: "group_text form_match 1 = ''FormParam''"
    by code_simp
  have f: "re_finditer param_pattern 4 ''@FormParam(\"f\") String f'' = [form_match]"
    by code_simp
  have v: "extract_parameters ?s [] = Inr [id_param]"
    by code_simp
  have w: "extract_endpoints ?c None = Inr [form_endpoint]"
    by code_simp
  note c = form_param_is_matched_but_not_collected
    [of "CHR 0x22" "''f''" "CHR 0x22" "'' ''" "''String''" "'' ''" "''f''" "[]" form_match ?s
        ?c None]
  from c ok have "extract_parameters
      (form_param_text CHR 0x22 ''f'' CHR 0x22 '' '' ''String'' '' '' ''f'') [] = Inr []"
    by blast
  then have b: "extract_parameters ''@FormParam(\"f\") String f'' [] = Inr []"
    by (simp only: t)
  from c g have m: "param_of_match form_match = Inr []"
    by blast
  from c v have "collected_location id_param"
    by auto
  then have d: "param_in id_param = AStr ''path''"
    by (simp add: id_param_def)
  from c w have "\<forall>p\<in>set (ep_parameters form_endpoint). collected_location p"
    by auto
  have e: "ep_parameters form_endpoint = []"
    by (simp add: form_endpoint_def)
  from f m b v d w e show ?thesis by (intro conjI)
qed

subsection \<open>C8: the paths of the generated document\<close>

text \<open>
  Claim C8. The (path, lower-case method) keys under \<^verbatim>\<open>paths\<close> in the generated document are exactly
  the pairs of the endpoints of the resources it was generated from, and no key occurs twice; no
  mapping of the document has a key twice. The YAML library is not part of the program: \<open>dump\<close>
  stands for the text \<^verbatim>\<open>yaml.dump\<close> writes and \<open>load\<close> for a YAML parser. If parsing the text of a
  document gives the document back, for every document without a repeated key, then parsing the
  text of the generated document gives a document with exactly the pairs of the model as keys.
\<close>
theorem generate_keys_are_model_pairs:
  "set (path_method_keys (OpenAPIGenerator_generate api_resources title version)) =
     set (model_pairs api_resources) \<and>
   distinct (path_method_keys (OpenAPIGenerator_generate api_resources title version)) \<and>
   yaml_ok (OpenAPIGenerator_generate api_resources title version) \<and>
   ((\<forall>doc. yaml_ok doc \<longrightarrow> load (dump doc) = Some doc) \<longrightarrow>
      (\<exists>doc. load (dump (OpenAPIGenerator_generate api_resources title version)) = Some doc \<and>
         set (path_method_keys doc) = set (model_pairs api_resources) \<and>
         distinct (path_method_keys doc)))"
proof (intro conjI impI)
  show "set (path_method_keys (OpenAPIGenerator_generate api_resources title version)) =
     set (model_pairs api_resources)"
    by (rule generate_keys)
  show "distinct (path_method_keys (OpenAPIGenerator_generate api_resources title version))"
    by (rule generate_keys)
  show "yaml_ok (OpenAPIGenerator_generate api_resources title version)"
    by (rule yaml_ok_generate)
next
  assume "\<forall>doc. yaml_ok doc \<longrightarrow> load (dump doc) = Some doc"
  then have "load (dump (OpenAPIGenerator_generate api_resources title version)) =
      Some (OpenAPIGenerator_generate api_resources title version)"
    using yaml_ok_generate by blast
  then show "\<exists>doc. load (dump (OpenAPIGenerator_generate api_resources title version)) = Some doc \<and>
         set (path_method_keys doc) = set (model_pairs api_resources) \<and>
         distinct (path_method_keys doc)"
    using generate_keys [of api_resources title version] by blast
qed

text \<open>
  Two resources that share a path and an operation: the document holds the pair once, and so
  does the document read back by the sample parser from the text of the sample serializer.
\<close>
theorem generate_keys_witness:
  "path_method_keys (OpenAPIGenerator_generate sample_resources ''API'' ''1.0'') =
     [(''/a'', ''get''), (''/a'', ''post''), (''/b'', ''get'')] \<and>
   model_pairs sample_resources =
     [(''/a'', ''get''), (''/a'', ''post''), (''/b'', ''get''), (''/a'', ''get'')] \<and>
   set (path_method_keys (OpenAPIGenerator_generate sample_resources ''API'' ''1.0'')) =
     set (model_pairs sample_resources) \<and>
   set (path_method_keys
          (the (sample_load (sample_dump
                  (OpenAPIGenerator_generate sample_resources ''API'' ''1.0''))))) =
     set (model_pairs sample_resources)"
proof -
  have k: "path_method_keys (OpenAPIGenerator_generate sample_resources ''API'' ''1.0'') =
     [(''/a'', ''get''), (''/a'', ''post''), (''/b'', ''get'')]"
    by code_simp
  have m: "model_pairs sample_resources =
     [(''/a'', ''get''), (''/a'', ''post''), (''/b'', ''get''), (''/a'', ''get'')]"
    by code_simp
  have r: "\<forall>doc. yaml_ok doc \<longrightarrow> sample_load (sample_dump doc) = Some doc"
    by (simp add: sample_load_dump)
  note c = generate_keys_are_model_pairs [of sample_resources "''API''" "''1.0''" sample_load
      sample_dump]
  from c have s: "set (path_method_keys (OpenAPIGenerator_generate sample_resources ''API'' ''1.0'')) =
     set (model_pairs sample_resources)"
    by blast
  from c r obtain doc where
    "sample_load (sample_dump (OpenAPIGenerator_generate sample_resources ''API'' ''1.0'')) =
       Some doc"
    and "set (path_method_keys doc) = set (model_pairs sample_resources)"
    by blast
  then have t: "set (path_method_keys
          (the (sample_load (sample_dump
                  (OpenAPIGenerator_generate sample_resources ''API'' ''1.0''))))) =
     set (model_pairs sample_resources)"
    by simp
  from k m s t show ?thesis by (intro conjI)
qed

subsection \<open>C9: a repository without resources\<close>

text \<open>
  Claim C9. When the output directory can be made and the analysis yields no resource, \<^verbatim>\<open>main\<close>
  prints the name of the repository, the errors of the scan and the message that no JAX-RS API
  was found, and ends without an exception. When the analysis yields no resource, no file is
  written, in full or in part. Every document a run writes is the OpenAPI document or the catalog
  entity generated from the resources found, and then resources were found. When resources are
  found and neither opening nor writing the two files fails, both documents are written, in this
  order, and the run ends without an exception. When the output directory cannot be made, the
  exception ends the run before anything else happens.
\<close>
theorem main_writes_only_with_resources:
  "(os_makedirs os output_dir = None \<and> found_resources fs rp = [] \<longrightarrow>
      main os fs rp output_dir =
        ([MakeDirs output_dir, Print (''Analyzing repository: '' @ rp)] @
         map Print (fst (analyze fs (JaxRSAnalyzer_init rp))) @
         [Print ''No JAX-RS APIs found in the repository''], None)) \<and>
   (found_resources fs rp = [] \<longrightarrow> filter is_write (fst (main os fs rp output_dir)) = []) \<and>
   (WriteYaml p d \<in> set (fst (main os fs rp output_dir)) \<longrightarrow>
      found_resources fs rp \<noteq> [] \<and>
      ((p, d) = (os_path_join output_dir ''openapi.yaml'',
                 OpenAPIGenerator_generate (found_resources fs rp) ''My JAX-RS API'' ''1.0.0'') \<or>
       (p, d) = (os_path_join output_dir ''catalog-info.yaml'',
                 BackstageGenerator_generate (found_resources fs rp) ''My JAX-RS API''
                   ''openapi.yaml''))) \<and>
   (os_makedirs os output_dir = None \<and> found_resources fs rp \<noteq> [] \<and>
    open_w os (os_path_join output_dir ''openapi.yaml'') = None \<and>
    dump_error os (os_path_join output_dir ''openapi.yaml'') = None \<and>
    open_w os (os_path_join output_dir ''catalog-info.yaml'') = None \<and>
    dump_error os (os_path_join output_dir ''catalog-info.yaml'') = None \<longrightarrow>
      filter is_write (fst (main os fs rp output_dir)) =
        [WriteYaml (os_path_join output_dir ''openapi.yaml'')
           (OpenAPIGenerator_generate (found_resources fs rp) ''My JAX-RS API'' ''1.0.0''),
         WriteYaml (os_path_join output_dir ''catalog-info.yaml'')
           (BackstageGenerator_generate (found_resources fs rp) ''My JAX-RS API''
              ''openapi.yaml'')] \<and>
      snd (main os fs rp output_dir) = None) \<and>
   (os_makedirs os output_dir = Some e \<longrightarrow> main os fs rp output_dir = ([], Some e))"
proof (intro conjI impI)
  assume "os_makedirs os output_dir = None \<and> found_resources fs rp = []"
  then show "main os fs rp output_dir =
        ([MakeDirs output_dir, Print (''Analyzing repository: '' @ rp)] @
         map Print (fst (analyze fs (JaxRSAnalyzer_init rp))) @
         [Print ''No JAX-RS APIs found in the repository''], None)"
    by (simp only: main_without_resources)
next
  assume "found_resources fs rp = []"
  then show "filter is_write (fst (main os fs rp output_dir)) = []"
    by (rule main_writes_nothing)
next
  assume w: "WriteYaml p d \<in> set (fst (main os fs rp output_dir))"
  from main_written_documents [OF w] show "found_resources fs rp \<noteq> []" ..
  from main_written_documents [OF w]
  show "(p, d) = (os_path_join output_dir ''openapi.yaml'',
                 OpenAPIGenerator_generate (found_resources fs rp) ''My JAX-RS API'' ''1.0.0'') \<or>
       (p, d) = (os_path_join output_dir ''catalog-info.yaml'',
                 BackstageGenerator_generate (found_resources fs rp) ''My JAX-RS API''
                   ''openapi.yaml'')" ..
next
  assume a: "os_makedirs os output_dir = None \<and> found_resources fs rp \<noteq> [] \<and>
    open_w os (os_path_join output_dir ''openapi.yaml'') = None \<and>
    dump_error os (os_path_join output_dir ''openapi.yaml'') = None \<and>
    open_w os (os_path_join output_dir ''catalog-info.yaml'') = None \<and>
    dump_error os (os_path_join output_dir ''catalog-info.yaml'') = None"
  then show "filter is_write (fst (main os fs rp output_dir)) =
        [WriteYaml (os_path_join output_dir ''openapi.yaml'')
           (OpenAPIGenerator_generate (found_resources fs rp) ''My JAX-RS API'' ''1.0.0''),
         WriteYaml (os_path_join output_dir ''catalog-info.yaml'')
           (BackstageGenerator_generate (found_resources fs rp) ''My JAX-RS API''
              ''openapi.yaml'')]"
    by (intro main_writes_both(1)) simp_all
  from a show "snd (main os fs rp output_dir) = None"
    by (intro main_writes_both(2)) simp_all
next
  assume "os_makedirs os output_dir = Some e"
  then show "main os fs rp output_dir = ([], Some e)"
    by (rule main_makedirs_fails)
qed

text \<open>
  The run on an empty repository, the files written for the sample repository, and the run with
  the empty path as output directory.
\<close>
theorem main_writes_witness:
  "main quiet_os empty_repo ''repo'' ''out'' =
     ([MakeDirs ''out'', Print ''Analyzing repository: repo'',
       Print ''No JAX-RS APIs found in the repository''], None) \<and>
   filter is_write (fst (main quiet_os empty_repo ''repo'' ''out'')) = [] \<and>
   filter is_write (fst (main quiet_os users_repo ''repo'' ''out'')) =
     [WriteYaml ''out/openapi.yaml''
        (OpenAPIGenerator_generate [users_resource] ''My JAX-RS API'' ''1.0.0''),
      WriteYaml ''out/catalog-info.yaml''
        (BackstageGenerator_generate [users_resource] ''My JAX-RS API'' ''openapi.yaml'')] \<and>
   snd (main quiet_os users_repo ''repo'' ''out'') = None \<and>
   found_resources users_repo ''repo'' = [users_resource] \<and>
   main quiet_os empty_repo ''repo'' [] = ([], Some no_such_file)"
proof -
  let ?doc = "OpenAPIGenerator_generate [users_resource] ''My JAX-RS API'' ''1.0.0''"
  have e: "found_resources empty_repo ''repo'' = []"
    "fst (analyze empty_repo (JaxRSAnalyzer_init ''repo'')) = []"
    by code_simp+
  have u: "found_resources users_repo ''repo'' = [users_resource]"
    by code_simp
  have p: "os_path_join ''out'' ''openapi.yaml'' = ''out/openapi.yaml''"
    "os_path_join ''out'' ''catalog-info.yaml'' = ''out/catalog-info.yaml''"
    by code_simp+
  have q: "os_makedirs quiet_os ''out'' = None"
    "open_w quiet_os ''out/openapi.yaml'' = None"
    "dump_error quiet_os ''out/openapi.yaml'' = None"
    "open_w quiet_os ''out/catalog-info.yaml'' = None"
    "dump_error quiet_os ''out/catalog-info.yaml'' = None"
    by code_simp+
  have f: "os_makedirs quiet_os [] = Some no_such_file"
    by code_simp
  have m: "WriteYaml ''out/openapi.yaml'' ?doc \<in>
      set (fst (main quiet_os users_repo ''repo'' ''out''))"
    by code_simp
  note c1 = main_writes_only_with_resources
    [of quiet_os "''out''" empty_repo "''repo''" "''out/openapi.yaml''" ?doc no_such_file]
  note c2 = main_writes_only_with_resources
    [of quiet_os "''out''" users_repo "''repo''" "''out/openapi.yaml''" ?doc no_such_file]
  note c3 = main_writes_only_with_resources
    [of quiet_os "[]" empty_repo "''repo''" "''out/openapi.yaml''" ?doc no_such_file]
  from c1 q(1) e(1) have "main quiet_os empty_repo ''repo'' ''out'' =
        ([MakeDirs ''out'', Print (''Analyzing repository: '' @ ''repo'')] @
         map Print (fst (analyze empty_repo (JaxRSAnalyzer_init ''repo''))) @
         [Print ''No JAX-RS APIs found in the repository''], None)"
    by blast
  then have a: "main quiet_os empty_repo ''repo'' ''out'' =
     ([MakeDirs ''out'', Print ''Analyzing repository: repo'',
       Print ''No JAX-RS APIs found in the repository''], None)"
    by (simp add: e(2))
  from c1 e(1) have n: "filter is_write (fst (main quiet_os empty_repo ''repo'' ''out'')) = []"
    by blast
  from c2 m have r: "found_resources users_repo ''repo'' \<noteq> []"
    by blast
  from c2 q r have "filter is_write (fst (main quiet_os users_repo ''repo'' ''out'')) =
        [WriteYaml (os_path_join ''out'' ''openapi.yaml'')
           (OpenAPIGenerator_generate (found_resources users_repo ''repo'') ''My JAX-RS API'' ''1.0.0''),
         WriteYaml (os_path_join ''out'' ''catalog-info.yaml'')
           (BackstageGenerator_generate (found_resources users_repo ''repo'') ''My JAX-RS API''
              ''openapi.yaml'')]"
    and s: "snd (main quiet_os users_repo ''repo'' ''out'') = None"
    by (simp_all only: p simp_thms)
  then have b: "filter is_write (fst (main quiet_os users_repo ''repo'' ''out'')) =
     [WriteYaml ''out/openapi.yaml''
        (OpenAPIGenerator_generate [users_resource] ''My JAX-RS API'' ''1.0.0''),
      WriteYaml ''out/catalog-info.yaml''
        (BackstageGenerator_generate [users_resource] ''My JAX-RS API'' ''openapi.yaml'')]"
    by (simp only: u p)
  from c3 f have x: "main quiet_os empty_repo ''repo'' [] = ([], Some no_such_file)"
    by blast
  from a n b s u x show ?thesis by (intro conjI)
qed

subsection \<open>C10: analyzing twice\<close>

text \<open>
  Claim C10. \<^verbatim>\<open>analyze\<close> appends the resources it discovers to the list the analyzer holds, and
  returns that list. A second call on the same analyzer, over an unchanged repository, returns the
  resources of the first call twice, in the same order; it returns the same list as the first call
  only when the first call found nothing.
\<close>
theorem analyze_accumulates:
  "snd (snd (analyze fs self)) = resources self @ discovered (find_java_files fs self) \<and>
   resources (fst (snd (analyze fs self))) = snd (snd (analyze fs self)) \<and>
   snd (snd (analyze fs (fst (snd (analyze fs (JaxRSAnalyzer_init rp)))))) =
     snd (snd (analyze fs (JaxRSAnalyzer_init rp))) @ snd (snd (analyze fs (JaxRSAnalyzer_init rp))) \<and>
   (snd (snd (analyze fs (JaxRSAnalyzer_init rp))) \<noteq> [] \<longrightarrow>
      snd (snd (analyze fs (fst (snd (analyze fs (JaxRSAnalyzer_init rp)))))) \<noteq>
      snd (snd (analyze fs (JaxRSAnalyzer_init rp))))"
  by (simp add: analyze_result find_java_files_def JaxRSAnalyzer_init_def)

text \<open>Two scans of the sample repository.\<close>
theorem analyze_accumulates_witness:
  "snd (snd (analyze users_repo (JaxRSAnalyzer_init ''repo''))) = [users_resource] \<and>
   snd (snd (analyze users_repo (fst (snd (analyze users_repo (JaxRSAnalyzer_init ''repo'')))))) =
     [users_resource, users_resource]"
proof -
  have a: "snd (snd (analyze users_repo (JaxRSAnalyzer_init ''repo''))) = [users_resource]"
    by code_simp
  from analyze_accumulates [of users_repo "JaxRSAnalyzer_init ''repo''" "''repo''"]
  have "snd (snd (analyze users_repo (fst (snd (analyze users_repo (JaxRSAnalyzer_init ''repo'')))))) =
     snd (snd (analyze users_repo (JaxRSAnalyzer_init ''repo''))) @
     snd (snd (analyze users_repo (JaxRSAnalyzer_init ''repo'')))"
    by blast
  then have "snd (snd (analyze users_repo (fst (snd (analyze users_repo (JaxRSAnalyzer_init ''repo'')))))) =
     [users_resource, users_resource]"
    by (simp add: a)
  with a show ?thesis by (intro conjI)
qed

end
